theory Spec2Isabelle
  imports Complex_Main "HOL-Library.AList" "HOL-Library.Multiset" "HOL-Library.Product_Lexorder"
begin

section \<open>Python strings\<close>

text \<open>
  A Python \<open>str\<close> is a sequence of Unicode code points; it is modelled as a list of
  naturals. ASCII literals of the source are written through \<open>ustr\<close>; the Chinese
  answer words are given by their code points.
\<close>

type_synonym pystr = "nat list"

definition ustr :: "string \<Rightarrow> pystr" where
  "ustr s = map of_char s"

text \<open>
  \<open>str.upper\<close> and \<open>str.lower\<close> on the ASCII letters; every other code point is kept,
  which is what Python does on digits, punctuation and CJK text (the case mappings of
  non-ASCII alphabets are not part of this model).
\<close>

definition py_upper :: "pystr \<Rightarrow> pystr" where
  "py_upper s = map (\<lambda>c. if 97 \<le> c \<and> c \<le> 122 then c - 32 else c) s"

definition py_lower :: "pystr \<Rightarrow> pystr" where
  "py_lower s = map (\<lambda>c. if 65 \<le> c \<and> c \<le> 90 then c + 32 else c) s"

text \<open>The code points for which \<open>str.isspace\<close> holds; \<open>str.strip()\<close> removes them at both ends.\<close>

definition py_isspace :: "nat \<Rightarrow> bool" where
  "py_isspace c \<longleftrightarrow>
     (9 \<le> c \<and> c \<le> 13) \<or> (28 \<le> c \<and> c \<le> 32) \<or> c = 133 \<or> c = 160 \<or> c = 5760 \<or>
     (8192 \<le> c \<and> c \<le> 8202) \<or> c = 8232 \<or> c = 8233 \<or> c = 8239 \<or> c = 8287 \<or> c = 12288"

definition py_strip :: "pystr \<Rightarrow> pystr" where
  "py_strip s = rev (dropWhile py_isspace (rev (dropWhile py_isspace s)))"

text \<open>
  \<open>s.replace(old, new)\<close>: every non-overlapping occurrence of \<open>old\<close>, found from the
  left, is replaced. For the empty pattern Python inserts \<open>new\<close> before every character
  and at the end.
\<close>

function py_replace :: "pystr \<Rightarrow> pystr \<Rightarrow> pystr \<Rightarrow> pystr" where
  "py_replace old new [] = (if old = [] then new else [])"
| "py_replace old new (c # cs) =
     (if old = [] then new @ c # py_replace old new cs
      else if take (length old) (c # cs) = old
           then new @ py_replace old new (drop (length old) (c # cs))
           else c # py_replace old new cs)"
  by pat_completeness auto
termination
  by (relation "measure (\<lambda>(old, new, s). length s)") (auto simp: neq_Nil_conv)

text \<open>\<open>str(n)\<close> for an integer: decimal digits, with a minus sign for negatives.\<close>

function str_nat :: "nat \<Rightarrow> pystr" where
  "str_nat n = (if n < 10 then [48 + n] else str_nat (n div 10) @ [48 + n mod 10])"
  by pat_completeness auto
termination
  by (relation "measure (\<lambda>n. n)") auto

declare str_nat.simps [simp del]

definition str_int :: "int \<Rightarrow> pystr" where
  "str_int i = (if i < 0 then 45 # str_nat (nat (- i)) else str_nat (nat i))"

text \<open>
  Python slicing \<open>xs[i:j]\<close> with integer bounds: a negative bound counts from the end,
  and both bounds are clamped to the list.
\<close>

definition py_index :: "nat \<Rightarrow> int \<Rightarrow> nat" where
  "py_index n i = (if i < 0 then nat (max 0 (int n + i)) else min (nat i) n)"

definition py_slice :: "'a list \<Rightarrow> int \<Rightarrow> int \<Rightarrow> 'a list" where
  "py_slice xs i j = take (py_index (length xs) j - py_index (length xs) i) (drop (py_index (length xs) i) xs)"

definition py_slice_to :: "'a list \<Rightarrow> int \<Rightarrow> 'a list" where
  "py_slice_to xs j = take (py_index (length xs) j) xs"

section \<open>Data model\<close>

text \<open>A question of a corpus file, with the fields the corpus contract lists.\<close>

record question =
  qid :: int
  subject :: int
  category :: pystr
  qtype :: pystr
  qtext :: pystr
  options :: "pystr list"
  answer :: pystr
  explanation :: pystr
  image :: "pystr option"

text \<open>What \<open>format_question\<close> hands out: the question without answer and explanation.\<close>

record formatted =
  f_id :: int
  f_subject :: int
  f_category :: pystr
  f_type :: pystr
  f_question :: pystr
  f_options :: "pystr list"
  f_image :: "pystr option"

definition format_question :: "question \<Rightarrow> formatted" where
  "format_question q =
     \<lparr>f_id = qid q, f_subject = subject q, f_category = category q, f_type = qtype q,
      f_question = qtext q, f_options = options q, f_image = image q\<rparr>"

record cat_data =
  answered :: int
  correct :: int
  answered_ids :: "int list"

record qstat =
  attempts :: int
  st_correct :: int

record exam_record =
  ex_date :: pystr
  ex_vehicle_type :: pystr
  ex_subject :: int
  ex_score :: int
  ex_total :: int
  ex_passed :: bool

text \<open>
  The progress record is the JSON object of \<open>progress.json\<close>. Each of its eight
  top-level keys may be absent from a stored file, so each field is optional
  (\<open>None\<close>: the key is not in the dict). Dicts are association lists in insertion
  order; \<open>question_stats\<close> is keyed by \<open>str(id)\<close>, \<open>sequential_pos\<close> by
  \<open>"{vtype}_subject{n}"\<close>.
\<close>

record progress =
  total_answered :: "int option"
  total_correct :: "int option"
  categories :: "(pystr \<times> cat_data) list option"
  wrong_questions :: "int list option"
  favorites :: "int list option"
  sequential_pos :: "(pystr \<times> int) list option"
  question_stats :: "(pystr \<times> qstat) list option"
  mock_exams :: "exam_record list option"

text \<open>
  What a command can fail with: a \<open>KeyError\<close> of a dict access, a \<open>ValueError\<close> of
  \<open>random.sample\<close>, a division by zero, the two \<open>sys.exit(1)\<close> paths of the helpers,
  or an int division whose quotient is too large for a \<open>float\<close>.
\<close>

datatype failure =
    KeyError string
  | ValueError
  | ZeroDivisionError
  | UnsupportedVtype pystr
  | CorpusMissing pystr
  | OverflowError

text \<open>
  The data directory maps a file stem \<open>"{vtype}_subject{n}"\<close> to the questions of
  that corpus file; \<open>None\<close> when the file does not exist. The progress file is
  \<open>None\<close> when it does not exist.
\<close>

type_synonym data_dir = "pystr \<Rightarrow> question list option"
type_synonym progress_file = "progress option"

section \<open>Helpers\<close>

definition VTYPE_ALIAS :: "(pystr \<times> pystr) list" where
  "VTYPE_ALIAS =
     [(ustr ''a1'', ustr ''a1''), (ustr ''a3'', ustr ''a1''), (ustr ''b1'', ustr ''a1''),
      (ustr ''a2'', ustr ''a2''), (ustr ''b2'', ustr ''a2''),
      (ustr ''c1'', ustr ''c1''), (ustr ''c2'', ustr ''c1''), (ustr ''c3'', ustr ''c1''),
      (ustr ''d'', ustr ''d''), (ustr ''e'', ustr ''d''), (ustr ''f'', ustr ''d'')]"

definition VTYPE_LABELS :: "pystr list" where
  "VTYPE_LABELS = [ustr ''c1'', ustr ''a1'', ustr ''a2'', ustr ''d'']"

definition resolve_vtype :: "pystr \<Rightarrow> failure + pystr" where
  "resolve_vtype raw =
     (case map_of VTYPE_ALIAS (py_lower (py_strip raw)) of
        None \<Rightarrow> Inl (UnsupportedVtype raw)
      | Some v \<Rightarrow> Inr v)"

definition corpus_file :: "pystr \<Rightarrow> int \<Rightarrow> pystr" where
  "corpus_file vtype subj = vtype @ ustr ''_subject'' @ str_int subj"

definition load_questions :: "data_dir \<Rightarrow> int \<Rightarrow> pystr \<Rightarrow> failure + question list" where
  "load_questions dd subj vtype =
     (case dd (corpus_file vtype subj) of
        None \<Rightarrow> Inl (CorpusMissing (corpus_file vtype subj))
      | Some qs \<Rightarrow> Inr qs)"

text \<open>
  \<open>find_question_by_id\<close> walks the vehicle types in table order and the subjects 1 and 4,
  skips the files that do not exist, and returns the first question with the id.
\<close>

definition known_files :: "pystr list" where
  "known_files = concat (map (\<lambda>vtype. map (\<lambda>subj. corpus_file vtype subj) [1, 4]) VTYPE_LABELS)"

definition find_question_by_id :: "data_dir \<Rightarrow> int \<Rightarrow> question option" where
  "find_question_by_id dd i =
     List.find (\<lambda>q. qid q = i)
       (concat (map (\<lambda>f. case dd f of None \<Rightarrow> [] | Some qs \<Rightarrow> qs) known_files))"

definition default_progress :: progress where
  "default_progress =
     \<lparr>total_answered = Some 0, total_correct = Some 0, categories = Some [],
      wrong_questions = Some [], favorites = Some [], sequential_pos = Some [],
      question_stats = Some [], mock_exams = Some []\<rparr>"

definition load_progress :: "progress_file \<Rightarrow> progress" where
  "load_progress pf = (case pf of Some p \<Rightarrow> p | None \<Rightarrow> default_progress)"

definition save_progress :: "progress \<Rightarrow> progress_file" where
  "save_progress p = Some p"

text \<open>\<open>ensure_fields\<close> fills in the three keys of its list, and no other.\<close>

definition ensure_fields :: "progress \<Rightarrow> progress" where
  "ensure_fields p =
     p\<lparr>favorites := (case favorites p of None \<Rightarrow> Some [] | Some f \<Rightarrow> Some f),
       sequential_pos := (case sequential_pos p of None \<Rightarrow> Some [] | Some s \<Rightarrow> Some s),
       question_stats := (case question_stats p of None \<Rightarrow> Some [] | Some s \<Rightarrow> Some s)\<rparr>"

text \<open>\<open>d[key]\<close> on the progress dict: a \<open>KeyError\<close> when the key is absent.\<close>

definition field :: "string \<Rightarrow> 'a option \<Rightarrow> failure + 'a" where
  "field name v = (case v of None \<Rightarrow> Inl (KeyError name) | Some x \<Rightarrow> Inr x)"

text \<open>\<open>progress.get(key, default)\<close>.\<close>

definition get_or :: "'a option \<Rightarrow> 'a \<Rightarrow> 'a" where
  "get_or v d = (case v of None \<Rightarrow> d | Some x \<Rightarrow> x)"

section \<open>Answer checker\<close>

definition and_then :: "failure + 'a \<Rightarrow> ('a \<Rightarrow> failure + 'b) \<Rightarrow> failure + 'b" where
  "and_then r f = (case r of Inl e \<Rightarrow> Inl e | Inr x \<Rightarrow> f x)"

text \<open>The answer words of judge questions, by code point.\<close>

definition dui :: pystr where
  "dui = [23545]"

definition cuo :: pystr where
  "cuo = [38169]"

definition zhengque :: pystr where
  "zhengque = [27491, 30830]"

definition cuowu :: pystr where
  "cuowu = [38169, 35823]"

definition normalize_map :: "(pystr \<times> pystr) list" where
  "normalize_map =
     [(zhengque, dui), (cuowu, cuo), (ustr ''TRUE'', dui), (ustr ''FALSE'', cuo),
      (ustr ''RIGHT'', dui), (ustr ''WRONG'', cuo)]"

text \<open>The loop over \<open>normalize_map.items()\<close>: one \<open>replace\<close> per entry, in table order.\<close>

definition judge_normalize :: "pystr \<Rightarrow> pystr" where
  "judge_normalize s = foldl (\<lambda>acc (k, v). py_replace k v acc) s normalize_map"

definition is_correct_answer :: "question \<Rightarrow> pystr \<Rightarrow> bool" where
  "is_correct_answer q ans =
     (let user_answer = py_upper (py_strip ans);
          correct_answer = py_upper (py_strip (answer q))
      in if qtype q = ustr ''judge''
         then judge_normalize user_answer = correct_answer
         else user_answer = correct_answer)"

text \<open>
  The update of the progress record in \<open>cmd_check\<close>, statement by statement; the first
  absent key raises. It returns the new record and the question's lifetime stats.
\<close>

definition record_answer :: "progress \<Rightarrow> question \<Rightarrow> bool \<Rightarrow> failure + (progress \<times> qstat)" where
  "record_answer p q ok =
     and_then (field ''total_answered'' (total_answered p)) (\<lambda>ta.
     and_then (field ''categories'' (categories p)) (\<lambda>cats.
       let cat = category q;
           cd = (case map_of cats cat of
                   None \<Rightarrow> \<lparr>answered = 0, correct = 0, answered_ids = []\<rparr>
                 | Some c \<Rightarrow> c);
           cd1 = cd\<lparr>answered := answered cd + 1, answered_ids := answered_ids cd @ [qid q]\<rparr>;
           p1 = p\<lparr>total_answered := Some (ta + 1), categories := Some (AList.update cat cd1 cats)\<rparr>
       in
     and_then
       (if ok then
          and_then (field ''total_correct'' (total_correct p1)) (\<lambda>tc.
          and_then (field ''wrong_questions'' (wrong_questions p1)) (\<lambda>wrong.
            Inr (p1\<lparr>total_correct := Some (tc + 1),
                    categories := Some (AList.update cat (cd1\<lparr>correct := correct cd1 + 1\<rparr>) cats),
                    wrong_questions :=
                      Some (if qid q \<in> set wrong then remove1 (qid q) wrong else wrong)\<rparr>)))
        else
          and_then (field ''wrong_questions'' (wrong_questions p1)) (\<lambda>wrong.
            Inr (p1\<lparr>wrong_questions :=
                      Some (if qid q \<notin> set wrong then wrong @ [qid q] else wrong)\<rparr>)))
       (\<lambda>p2.
     and_then (field ''question_stats'' (question_stats p2)) (\<lambda>stats.
       let qid_str = str_int (qid q);
           st = (case map_of stats qid_str of
                   None \<Rightarrow> \<lparr>attempts = 0, st_correct = 0\<rparr>
                 | Some s \<Rightarrow> s);
           st1 = st\<lparr>attempts := attempts st + 1\<rparr>;
           st2 = (if ok then st1\<lparr>st_correct := st_correct st1 + 1\<rparr> else st1)
       in Inr (p2\<lparr>question_stats := Some (AList.update qid_str st2 stats)\<rparr>, st2)))))"

text \<open>
  The payload of \<open>check\<close>. The formatted error-rate string, the topic labels and the
  mnemonics of the payload are derived from the fields below and the static tables, and
  are left out.
\<close>

record check_result =
  cr_question_id :: int
  cr_correct :: bool
  cr_user_answer :: pystr
  cr_correct_answer :: pystr
  cr_explanation :: pystr
  cr_category :: pystr
  cr_attempts :: int

datatype check_output = CheckNotFound int | CheckResult check_result

text \<open>
  A command takes the progress file and returns what it prints (or the exception it
  ends with) together with the progress file it leaves behind.
\<close>

definition cmd_check :: "data_dir \<Rightarrow> progress_file \<Rightarrow> int \<Rightarrow> pystr \<Rightarrow> (failure + check_output) \<times> progress_file" where
  "cmd_check dd pf i ans =
     (case find_question_by_id dd i of
        None \<Rightarrow> (Inr (CheckNotFound i), pf)
      | Some q \<Rightarrow>
          let ok = is_correct_answer q ans in
          (case record_answer (ensure_fields (load_progress pf)) q ok of
             Inl e \<Rightarrow> (Inl e, pf)
           | Inr (p', qs) \<Rightarrow>
               (Inr (CheckResult
                  \<lparr>cr_question_id = qid q, cr_correct = ok, cr_user_answer = ans,
                   cr_correct_answer = answer q, cr_explanation = explanation q,
                   cr_category = category q, cr_attempts = attempts qs\<rparr>),
                save_progress p')))"

text \<open>The verdict of a \<open>check\<close> payload, when there is one.\<close>

definition verdict :: "failure + check_output \<Rightarrow> bool option" where
  "verdict r = (case r of Inr (CheckResult c) \<Rightarrow> Some (cr_correct c) | _ \<Rightarrow> None)"

section \<open>Favorites\<close>

datatype fav_output =
    FavNotFound int
  | Favorited int int
  | AlreadyFavorited int int
  | Unfavorited int int
  | NotInFavorites int

definition cmd_favorite :: "data_dir \<Rightarrow> progress_file \<Rightarrow> int \<Rightarrow> (failure + fav_output) \<times> progress_file" where
  "cmd_favorite dd pf i =
     (let progress = ensure_fields (load_progress pf) in
      case find_question_by_id dd i of
        None \<Rightarrow> (Inr (FavNotFound i), pf)
      | Some q \<Rightarrow>
          (case field ''favorites'' (favorites progress) of
             Inl e \<Rightarrow> (Inl e, pf)
           | Inr favs \<Rightarrow>
               if i \<notin> set favs
               then (Inr (Favorited i (int (length (favs @ [i])))),
                     save_progress (progress\<lparr>favorites := Some (favs @ [i])\<rparr>))
               else (Inr (AlreadyFavorited i (int (length favs))), pf)))"

definition cmd_unfavorite :: "progress_file \<Rightarrow> int \<Rightarrow> (failure + fav_output) \<times> progress_file" where
  "cmd_unfavorite pf i =
     (let progress = ensure_fields (load_progress pf) in
      case field ''favorites'' (favorites progress) of
        Inl e \<Rightarrow> (Inl e, pf)
      | Inr favs \<Rightarrow>
          if i \<in> set favs
          then (Inr (Unfavorited i (int (length (remove1 i favs)))),
                save_progress (progress\<lparr>favorites := Some (remove1 i favs)\<rparr>))
          else (Inr (NotInFavorites i), pf))"

section \<open>Sequential practice\<close>

definition pos_key :: "pystr \<Rightarrow> int \<Rightarrow> pystr" where
  "pos_key vtype subj = vtype @ ustr ''_subject'' @ str_int subj"

text \<open>The payload of a batch; the formatted percentage string is left out.\<close>

record seq_result =
  sq_position :: int
  sq_end_position :: int
  sq_total :: int
  sq_remaining :: int
  sq_count :: int
  sq_questions :: "formatted list"

datatype seq_output =
    SeqReset int int
  | SeqDone int int
  | SeqBatch seq_result

text \<open>
  The percentage of the batch payload divides by the corpus length after the cursor has
  been saved; on an empty corpus (reachable only with a negative stored cursor) that
  division raises.
\<close>

definition cmd_sequential ::
  "data_dir \<Rightarrow> progress_file \<Rightarrow> pystr \<Rightarrow> int \<Rightarrow> int \<Rightarrow> bool \<Rightarrow> (failure + seq_output) \<times> progress_file" where
  "cmd_sequential dd pf raw_vtype subj cnt reset =
     (case resolve_vtype raw_vtype of
        Inl e \<Rightarrow> (Inl e, pf)
      | Inr vtype \<Rightarrow>
     (case load_questions dd subj vtype of
        Inl e \<Rightarrow> (Inl e, pf)
      | Inr questions \<Rightarrow>
     (let progress = ensure_fields (load_progress pf);
          key = pos_key vtype subj
      in case field ''sequential_pos'' (sequential_pos progress) of
        Inl e \<Rightarrow> (Inl e, pf)
      | Inr sp \<Rightarrow>
          if reset
          then (Inr (SeqReset 0 (int (length questions))),
                save_progress (progress\<lparr>sequential_pos := Some (AList.update key 0 sp)\<rparr>))
          else
            let current_pos = get_or (map_of sp key) 0;
                total_n = int (length questions)
            in if current_pos \<ge> total_n
               then (Inr (SeqDone current_pos total_n), pf)
               else
                 let end_pos = min (current_pos + cnt) total_n;
                     selected = py_slice questions current_pos end_pos;
                     pf' = save_progress (progress\<lparr>sequential_pos := Some (AList.update key end_pos sp)\<rparr>)
                 in if total_n = 0 then (Inl ZeroDivisionError, pf')
                    else (Inr (SeqBatch
                            \<lparr>sq_position = current_pos + 1, sq_end_position = end_pos,
                             sq_total = total_n, sq_remaining = total_n - end_pos,
                             sq_count = int (length selected),
                             sq_questions = map format_question selected\<rparr>),
                          pf'))))"

text \<open>The cursor a progress file holds for a key, as \<open>cmd_sequential\<close> reads it.\<close>

definition cursor_of :: "progress_file \<Rightarrow> pystr \<Rightarrow> int" where
  "cursor_of pf key =
     get_or (map_of (get_or (sequential_pos (ensure_fields (load_progress pf))) []) key) 0"

section \<open>Recording an exam\<close>

datatype exam_output = Recorded bool

text \<open>The timestamp of \<open>datetime.now()\<close> is an input of the command.\<close>

definition cmd_record_exam ::
  "progress_file \<Rightarrow> pystr \<Rightarrow> pystr \<Rightarrow> int \<Rightarrow> int \<Rightarrow> int \<Rightarrow> (failure + exam_output) \<times> progress_file" where
  "cmd_record_exam pf now raw_vtype subj score total_n =
     (case resolve_vtype raw_vtype of
        Inl e \<Rightarrow> (Inl e, pf)
      | Inr vtype \<Rightarrow>
          let progress = ensure_fields (load_progress pf) in
          (case field ''mock_exams'' (mock_exams progress) of
             Inl e \<Rightarrow> (Inl e, pf)
           | Inr exams \<Rightarrow>
               (Inr (Recorded (score \<ge> 90)),
                save_progress (progress\<lparr>mock_exams := Some (exams @
                  [\<lparr>ex_date = now, ex_vehicle_type = vtype, ex_subject = subj, ex_score = score,
                    ex_total = total_n, ex_passed = (score \<ge> 90)\<rparr>])\<rparr>))))"

section \<open>Double precision\<close>

text \<open>
  A Python \<open>float\<close> is an IEEE 754 binary64 number. A finite double is modelled by the
  rational number it denotes. \<open>round_double\<close> takes an exact rational to the nearest
  double: 53 significant bits above \<open>2 powi (- 1022)\<close>, a fixed spacing of
  \<open>2 powi (- 1074)\<close> below, ties to the even significand, and \<open>None\<close> when the rounded
  magnitude reaches \<open>2 powi 1024\<close>, past the largest finite double. The two zeros of the
  format compare equal and are one value here.
\<close>

function bit_length :: "int \<Rightarrow> int" where
  "bit_length n = (if n \<le> 0 then 0 else 1 + bit_length (n div 2))"
  by pat_completeness auto
termination
  by (relation "measure nat") auto

declare bit_length.simps [simp del]

definition round_half_even :: "rat \<Rightarrow> int" where
  "round_half_even x =
     (let f = \<lfloor>x\<rfloor>; r = x - of_int f
      in if r < 1 / 2 then f else if 1 / 2 < r then f + 1 else if even f then f else f + 1)"

text \<open>The \<open>k\<close> with \<open>2 powi k \<le> q < 2 powi (k + 1)\<close>, for a positive \<open>q\<close>.\<close>

definition binary_exponent :: "rat \<Rightarrow> int" where
  "binary_exponent q =
     (case quotient_of q of (n, d) \<Rightarrow>
        let k = bit_length n - bit_length d
        in if 2 powi k \<le> q then k else k - 1)"

definition round_double :: "rat \<Rightarrow> rat option" where
  "round_double q =
     (if q = 0 then Some 0
      else
        let m = \<bar>q\<bar>;
            e = max (binary_exponent m) (- 1022);
            ulp = 2 powi (e - 52);
            r = of_int (round_half_even (m / ulp)) * ulp
        in if 2 powi 1024 \<le> r then None else Some (if q < 0 then - r else r))"

text \<open>
  \<open>a / b\<close> on two ints is the correctly rounded quotient; it raises
  \<open>ZeroDivisionError\<close> for a zero divisor and \<open>OverflowError\<close> when the quotient is too
  large for a double.
\<close>

definition int_truediv :: "int \<Rightarrow> int \<Rightarrow> failure + rat" where
  "int_truediv a b =
     (if b = 0 then Inl ZeroDivisionError
      else case round_double (of_int a / of_int b) of
             None \<Rightarrow> Inl OverflowError
           | Some x \<Rightarrow> Inr x)"

text \<open>
  \<open>x - y\<close> on two doubles is the correctly rounded difference; \<open>None\<close> stands for an
  infinite result, which Python returns without raising.
\<close>

definition float_sub :: "rat \<Rightarrow> rat \<Rightarrow> rat option" where
  "float_sub x y = round_double (x - y)"

section \<open>Difficulty ranking\<close>

text \<open>
  \<open>error_rate = 1 - stats["correct"] / stats["attempts"]\<close>: an int division, then a
  float subtraction from the int \<open>1\<close>, which converts to the double \<open>1.0\<close>. The
  difference of \<open>1.0\<close> and a finite double is finite (lemma \<open>one_minus_double_finite\<close>
  below), so the last branch, kept to make the function total, is never taken.
\<close>

definition error_rate :: "qstat \<Rightarrow> failure + rat" where
  "error_rate stats =
     and_then (int_truediv (st_correct stats) (attempts stats)) (\<lambda>x.
       case float_sub 1 x of
         Some er \<Rightarrow> Inr er
       | None \<Rightarrow> Inl OverflowError)"

text \<open>
  The payload prints the rate as a percentage and adds the topic labels; the model keeps
  the rate itself and leaves the labels out.
\<close>

record hard_item =
  h_question :: formatted
  h_error_rate :: rat
  h_attempts :: int

datatype hard_output = HardNoStats | HardList int int "hard_item list"

text \<open>The loop over the corpus; the first division that raises ends the command.\<close>

fun score_all :: "(pystr \<times> qstat) list \<Rightarrow> question list \<Rightarrow> failure + (question \<times> rat \<times> int) list" where
  "score_all q_stats [] = Inr []"
| "score_all q_stats (q # qs) =
     (case map_of q_stats (str_int (qid q)) of
        None \<Rightarrow> score_all q_stats qs
      | Some stats \<Rightarrow>
          if attempts stats > 0
          then and_then (error_rate stats) (\<lambda>er.
               and_then (score_all q_stats qs) (\<lambda>rest.
                 Inr ((q, er, attempts stats) # rest)))
          else score_all q_stats qs)"

definition scored_questions :: "progress \<Rightarrow> question list \<Rightarrow> failure + (question \<times> rat \<times> int) list" where
  "scored_questions progress questions =
     score_all (get_or (question_stats progress) []) questions"

text \<open>
  \<open>scored.sort(key=lambda x: (-x[1], -x[2]))\<close>: a stable ascending sort on the negated
  pair, compared lexicographically.
\<close>

definition hard_rank :: "(question \<times> rat \<times> int) list \<Rightarrow> (question \<times> rat \<times> int) list" where
  "hard_rank scored = sort_key (\<lambda>(q, er, att). (- er, - att)) scored"

definition hard_entry :: "question \<times> rat \<times> int \<Rightarrow> hard_item" where
  "hard_entry x = (case x of (q, er, att) \<Rightarrow>
     \<lparr>h_question = format_question q, h_error_rate = er, h_attempts = att\<rparr>)"

definition cmd_hard ::
  "data_dir \<Rightarrow> progress_file \<Rightarrow> pystr \<Rightarrow> int \<Rightarrow> int \<Rightarrow> (failure + hard_output) \<times> progress_file" where
  "cmd_hard dd pf raw_vtype subj cnt =
     (case resolve_vtype raw_vtype of
        Inl e \<Rightarrow> (Inl e, pf)
      | Inr vtype \<Rightarrow>
     (case load_questions dd subj vtype of
        Inl e \<Rightarrow> (Inl e, pf)
      | Inr questions \<Rightarrow>
          let progress = ensure_fields (load_progress pf) in
          (case scored_questions progress questions of
             Inl e \<Rightarrow> (Inl e, pf)
           | Inr scored \<Rightarrow>
               if scored = [] then (Inr HardNoStats, pf)
               else
                 let ranked = hard_rank scored;
                     n = min cnt (int (length ranked));
                     selected = py_slice_to ranked n
                 in (Inr (HardList (int (length ranked)) n (map hard_entry selected)), pf))))"

text \<open>
  The error rate as a reader of the formula \<open>1 - correct / attempts\<close> would take it, with
  the exact quotient. It is not part of the program; the computed rate is compared with it.
\<close>

definition exact_error_rate :: "qstat \<Rightarrow> rat" where
  "exact_error_rate stats = 1 - of_int (st_correct stats) / of_int (attempts stats)"

section \<open>Curated subset\<close>

text \<open>
  \<open>random.sample\<close> and \<open>random.shuffle\<close> belong to the Python library. They are
  parameters of the model: each takes the generator state and returns its result with
  the next state. What the library guarantees of them is stated by \<open>valid_sample\<close> and
  \<open>valid_shuffle\<close>: a sample of \<open>k \<le> len\<close> elements has length \<open>k\<close> and draws without
  replacement; a shuffle is a permutation.
\<close>

type_synonym 'g sampler = "'g \<Rightarrow> question list \<Rightarrow> nat \<Rightarrow> question list \<times> 'g"
type_synonym 'g shuffler = "'g \<Rightarrow> question list \<Rightarrow> question list \<times> 'g"

definition valid_sample :: "'g sampler \<Rightarrow> bool" where
  "valid_sample smp \<longleftrightarrow>
     (\<forall>g xs k. k \<le> length xs \<longrightarrow>
        length (fst (smp g xs k)) = k \<and> mset (fst (smp g xs k)) \<subseteq># mset xs)"

definition valid_shuffle :: "'g shuffler \<Rightarrow> bool" where
  "valid_shuffle shf \<longleftrightarrow> (\<forall>g xs. mset (fst (shf g xs)) = mset xs)"

definition answered_ids_of :: "progress \<Rightarrow> int list" where
  "answered_ids_of progress = concat (map (\<lambda>(cat, cat_data). answered_ids cat_data) (get_or (categories progress) []))"

definition wrong_ids_of :: "progress \<Rightarrow> int list" where
  "wrong_ids_of progress = get_or (wrong_questions progress) []"

definition wrong_pool :: "progress \<Rightarrow> question list \<Rightarrow> question list" where
  "wrong_pool progress questions = filter (\<lambda>q. qid q \<in> set (wrong_ids_of progress)) questions"

definition unanswered_pool :: "progress \<Rightarrow> question list \<Rightarrow> question list" where
  "unanswered_pool progress questions =
     filter (\<lambda>q. qid q \<notin> set (wrong_ids_of progress) \<and> qid q \<notin> set (answered_ids_of progress)) questions"

definition correct_pool :: "progress \<Rightarrow> question list \<Rightarrow> question list" where
  "correct_pool progress questions =
     filter (\<lambda>q. qid q \<notin> set (wrong_ids_of progress) \<and> qid q \<in> set (answered_ids_of progress)) questions"

text \<open>\<open>by_cat.setdefault(q["category"], []).append(q)\<close> over the pool, in dict order.\<close>

definition by_category :: "question list \<Rightarrow> (pystr \<times> question list) list" where
  "by_category qs =
     foldl (\<lambda>by_cat q. AList.update (category q) (get_or (map_of by_cat (category q)) [] @ [q]) by_cat) [] qs"

fun sample_each :: "'g sampler \<Rightarrow> nat \<Rightarrow> (pystr \<times> question list) list \<Rightarrow> 'g \<Rightarrow> question list \<times> 'g" where
  "sample_each smp per_cat [] g = ([], g)"
| "sample_each smp per_cat ((cat, cat_qs) # rest) g =
     (case smp g cat_qs (min per_cat (length cat_qs)) of (picked, g1) \<Rightarrow>
      case sample_each smp per_cat rest g1 of (others, g2) \<Rightarrow> (picked @ others, g2))"

text \<open>The curated set: \<open>selected\<close> after the truncation and the shuffle.\<close>

definition top500_selected ::
  "'g sampler \<Rightarrow> 'g shuffler \<Rightarrow> progress \<Rightarrow> question list \<Rightarrow> 'g \<Rightarrow> question list \<times> 'g" where
  "top500_selected smp shf progress questions g =
     (let target = 500;
          selected0 = wrong_pool progress questions;
          remaining = target - int (length selected0);
          (selected1, g1) =
            (if remaining > 0 \<and> unanswered_pool progress questions \<noteq> []
             then
               let by_cat = by_category (unanswered_pool progress questions);
                   per_cat = (if by_cat \<noteq> [] then max 1 (remaining div int (length by_cat)) else 0)
               in case sample_each smp (nat per_cat) by_cat g of
                    (picked, g') \<Rightarrow> (selected0 @ picked, g')
             else (selected0, g));
          remaining2 = target - int (length selected1);
          (selected2, g2) =
            (if remaining2 > 0 \<and> correct_pool progress questions \<noteq> []
             then
               let take_n = min remaining2 (int (length (correct_pool progress questions)))
               in case smp g1 (correct_pool progress questions) (nat take_n) of
                    (picked, g') \<Rightarrow> (selected1 @ picked, g')
             else (selected1, g1))
      in shf g2 (py_slice_to selected2 target))"

record composition =
  comp_wrong :: int
  comp_unanswered :: int
  comp_reviewed :: int

record top500_result =
  t_total_selected :: int
  t_composition :: composition
  t_count :: int
  t_questions :: "formatted list"

definition cmd_top500 ::
  "'g sampler \<Rightarrow> 'g shuffler \<Rightarrow> data_dir \<Rightarrow> progress_file \<Rightarrow> pystr \<Rightarrow> int \<Rightarrow> int \<Rightarrow> 'g \<Rightarrow>
     (failure + top500_result) \<times> progress_file" where
  "cmd_top500 smp shf dd pf raw_vtype subj cnt g =
     (case resolve_vtype raw_vtype of
        Inl e \<Rightarrow> (Inl e, pf)
      | Inr vtype \<Rightarrow>
     (case load_questions dd subj vtype of
        Inl e \<Rightarrow> (Inl e, pf)
      | Inr questions \<Rightarrow>
          let progress = ensure_fields (load_progress pf);
              wrong_ids = wrong_ids_of progress;
              answered = answered_ids_of progress;
              selected = fst (top500_selected smp shf progress questions g);
              n = min cnt (int (length selected));
              batch = py_slice_to selected n
          in (Inr \<lparr>t_total_selected = int (length selected),
                   t_composition =
                     \<lparr>comp_wrong = int (length (wrong_pool progress questions)),
                      comp_unanswered = int (length (filter (\<lambda>q. qid q \<notin> set answered \<and> qid q \<notin> set wrong_ids) selected)),
                      comp_reviewed = int (length (filter (\<lambda>q. qid q \<in> set answered \<and> qid q \<notin> set wrong_ids) selected))\<rparr>,
                   t_count = n,
                   t_questions = map format_question batch\<rparr>,
              pf)))"

text \<open>The same three counts, taken over a batch of formatted questions.\<close>

definition batch_composition :: "progress \<Rightarrow> formatted list \<Rightarrow> composition" where
  "batch_composition progress batch =
     \<lparr>comp_wrong = int (length (filter (\<lambda>f. f_id f \<in> set (wrong_ids_of progress)) batch)),
      comp_unanswered = int (length (filter (\<lambda>f. f_id f \<notin> set (answered_ids_of progress) \<and> f_id f \<notin> set (wrong_ids_of progress)) batch)),
      comp_reviewed = int (length (filter (\<lambda>f. f_id f \<in> set (answered_ids_of progress) \<and> f_id f \<notin> set (wrong_ids_of progress)) batch))\<rparr>"

section \<open>Concrete inputs\<close>

text \<open>A data directory with one corpus file, \<open>c1_subject1\<close>, holding one judge question.\<close>

definition judge_question :: question where
  "judge_question = \<lparr>qid = 10001, subject = 1, category = [20132], qtype = ustr ''judge'', qtext = [],
     options = [], answer = dui, explanation = [], image = None\<rparr>"

definition small_dir :: data_dir where
  "small_dir = (\<lambda>f. if f = corpus_file (ustr ''c1'') 1 then Some [judge_question] else None)"

text \<open>No corpus file at all, and a progress file whose favorite is in no corpus.\<close>

definition empty_dir :: data_dir where
  "empty_dir = (\<lambda>f. None)"

definition orphan_favorite_file :: progress_file where
  "orphan_favorite_file = Some (default_progress\<lparr>favorites := Some [7]\<rparr>)"

text \<open>A progress file of an older schema: four of the eight keys are absent.\<close>

definition legacy_file :: progress_file where
  "legacy_file = Some
     \<lparr>total_answered = None, total_correct = Some 0, categories = Some [],
      wrong_questions = Some [], favorites = None, sequential_pos = None,
      question_stats = None, mock_exams = Some []\<rparr>"

text \<open>A single-choice question with a given id and category, and a corpus of twelve of them.\<close>

definition mk_question :: "int \<Rightarrow> pystr \<Rightarrow> question" where
  "mk_question i c = \<lparr>qid = i, subject = 1, category = c, qtype = ustr ''single'', qtext = [],
      options = [], answer = ustr ''A'', explanation = [], image = None\<rparr>"

definition twelve_questions :: "question list" where
  "twelve_questions = map (\<lambda>i. mk_question i [20132]) [1..12]"

definition twelve_dir :: data_dir where
  "twelve_dir = (\<lambda>f. if f = corpus_file (ustr ''c1'') 1 then Some twelve_questions else None)"

definition finished_file :: progress_file where
  "finished_file = Some (default_progress\<lparr>sequential_pos := Some [(pos_key (ustr ''c1'') 1, 12)]\<rparr>)"

text \<open>
  Two questions with recorded attempts: id 1 with 3 of 10 correct, id 2 with 8 of 10
  correct; id 2 comes first in the corpus.
\<close>

definition hard_questions :: "question list" where
  "hard_questions = [mk_question 2 [20132], mk_question 1 [20132]]"

definition hard_dir :: data_dir where
  "hard_dir = (\<lambda>f. if f = corpus_file (ustr ''c1'') 1 then Some hard_questions else None)"

definition hard_file :: progress_file where
  "hard_file = Some (default_progress
     \<lparr>question_stats := Some [(str_int 1, \<lparr>attempts = 10, st_correct = 3\<rparr>),
                               (str_int 2, \<lparr>attempts = 10, st_correct = 8\<rparr>)]\<rparr>)"

text \<open>
  Two questions whose exact error rates differ by \<open>1 / 2 ^ 60\<close>: id 1 with 0 of 1
  correct, id 2 with 1 of \<open>2 ^ 60\<close> correct; id 1 comes first in the corpus.
\<close>

definition tie_questions :: "question list" where
  "tie_questions = [mk_question 1 [20132], mk_question 2 [20132]]"

definition tie_dir :: data_dir where
  "tie_dir = (\<lambda>f. if f = corpus_file (ustr ''c1'') 1 then Some tie_questions else None)"

definition tie_file :: progress_file where
  "tie_file = Some (default_progress
     \<lparr>question_stats := Some [(str_int 1, \<lparr>attempts = 1, st_correct = 0\<rparr>),
                               (str_int 2, \<lparr>attempts = 1152921504606846976, st_correct = 1\<rparr>)]\<rparr>)"

text \<open>
  One outcome the random library can produce: the sample is the first \<open>k\<close> elements, the
  shuffle leaves the order as it is. The generator state is not used.
\<close>

definition prefix_sample :: "unit sampler" where
  "prefix_sample g xs k = (take k xs, g)"

definition keep_order :: "unit shuffler" where
  "keep_order g xs = (xs, g)"

definition three_questions :: "question list" where
  "three_questions = [mk_question 1 [20132], mk_question 2 [20132], mk_question 3 [20132]]"

definition three_dir :: data_dir where
  "three_dir = (\<lambda>f. if f = corpus_file (ustr ''c1'') 1 then Some three_questions else None)"

text \<open>
  A corpus of 600 questions, ids 1 to 600. Ids 1 to 50 have been answered and are
  currently wrong; the other 550 have never been attempted and fall into ten categories,
  505 questions in the first and 5 in each of the other nine.
\<close>

definition block :: "nat \<Rightarrow> int \<Rightarrow> int \<Rightarrow> question list" where
  "block k lo hi = map (\<lambda>i. mk_question i [k]) [lo..hi]"

definition corpus600 :: "question list" where
  "corpus600 =
     block 0 1 50 @ block 1 51 555 @ block 2 556 560 @ block 3 561 565 @ block 4 566 570 @
     block 5 571 575 @ block 6 576 580 @ block 7 581 585 @ block 8 586 590 @ block 9 591 595 @
     block 10 596 600"

definition progress600 :: progress where
  "progress600 = default_progress
     \<lparr>total_answered := Some 50,
      categories := Some [([0], \<lparr>answered = 50, correct = 0, answered_ids = [1..50]\<rparr>)],
      wrong_questions := Some [1..50]\<rparr>"

definition dir600 :: data_dir where
  "dir600 = (\<lambda>f. if f = corpus_file (ustr ''c1'') 1 then Some corpus600 else None)"

section \<open>Verified properties\<close>

subsection \<open>Answer checker\<close>




lemma find_question_by_id_absent:
  assumes "\<forall>f qs. dd f = Some qs \<longrightarrow> i \<notin> qid ` set qs"
  shows "find_question_by_id dd i = None"
proof -
  have "qid q \<noteq> i"
    if "q \<in> set (concat (map (\<lambda>f. case dd f of None \<Rightarrow> [] | Some qs \<Rightarrow> qs) known_files))" for q
  proof -
    from that obtain f where "q \<in> set (case dd f of None \<Rightarrow> [] | Some qs \<Rightarrow> qs)" by auto
    then obtain qs where "dd f = Some qs" "q \<in> set qs" by (cases "dd f") auto
    with assms show ?thesis by blast
  qed
  then show ?thesis
    unfolding find_question_by_id_def find_None_iff by blast
qed


text \<open>
  Claim C8. A check with an id that no corpus file holds prints the not-found error and
  leaves the progress file exactly as it was: nothing is loaded, changed or saved.
\<close>

theorem check_unknown_id_unchanged:
  assumes "\<forall>f qs. dd f = Some qs \<longrightarrow> i \<notin> qid ` set qs"
  shows "cmd_check dd pf i ans = (Inr (CheckNotFound i), pf)"
  by (simp add: cmd_check_def find_question_by_id_absent[OF assms])

lemma yes_norm:
  "s \<in> {dui, zhengque, ustr ''TRUE'', ustr ''RIGHT''} \<Longrightarrow> judge_normalize (py_upper (py_strip s)) = dui"
  by (auto simp: judge_normalize_def normalize_map_def ustr_def dui_def cuo_def zhengque_def cuowu_def py_upper_def py_strip_def py_isspace_def)

lemma no_norm:
  "s \<in> {cuo, cuowu, ustr ''FALSE'', ustr ''WRONG''} \<Longrightarrow> judge_normalize (py_upper (py_strip s)) = cuo"
  by (auto simp: judge_normalize_def normalize_map_def ustr_def dui_def cuo_def zhengque_def cuowu_def py_upper_def py_strip_def py_isspace_def)




text \<open>
  Claim C6. On a judge question each synonym spelling gets the verdict of the canonical
  answer word, and leaves the same progress file: the three spellings of "right" behave
  as \<open>dui\<close>, the three spellings of "wrong" as \<open>cuo\<close>.
\<close>

theorem check_judge_synonyms:
  assumes "find_question_by_id dd i = Some q" and "qtype q = ustr ''judge''"
  shows "(\<forall>s \<in> {zhengque, ustr ''TRUE'', ustr ''RIGHT''}.
            verdict (fst (cmd_check dd pf i s)) = verdict (fst (cmd_check dd pf i dui)) \<and>
            snd (cmd_check dd pf i s) = snd (cmd_check dd pf i dui)) \<and>
         (\<forall>s \<in> {cuowu, ustr ''FALSE'', ustr ''WRONG''}.
            verdict (fst (cmd_check dd pf i s)) = verdict (fst (cmd_check dd pf i cuo)) \<and>
            snd (cmd_check dd pf i s) = snd (cmd_check dd pf i cuo))"
proof -
  have y: "is_correct_answer q s = is_correct_answer q dui"
    if "s \<in> {zhengque, ustr ''TRUE'', ustr ''RIGHT''}" for s
    using that assms(2) yes_norm[of s] yes_norm[of dui] by (auto simp: is_correct_answer_def Let_def)
  have n: "is_correct_answer q s = is_correct_answer q cuo"
    if "s \<in> {cuowu, ustr ''FALSE'', ustr ''WRONG''}" for s
    using that assms(2) no_norm[of s] no_norm[of cuo] by (auto simp: is_correct_answer_def Let_def)
  have v: "verdict (fst (cmd_check dd pf i s)) = verdict (fst (cmd_check dd pf i t)) \<and>
           snd (cmd_check dd pf i s) = snd (cmd_check dd pf i t)"
    if "is_correct_answer q s = is_correct_answer q t" for s t
    using that assms(1)
    by (auto simp: cmd_check_def verdict_def Let_def split: sum.splits prod.splits)
  show ?thesis using y n v by blast
qed


lemmas eval_defs = find_question_by_id_def small_dir_def known_files_def VTYPE_LABELS_def corpus_file_def
  ustr_def str_int_def str_nat.simps judge_question_def

lemma small_dir_find: "find_question_by_id small_dir 10001 = Some judge_question"
  by (simp add: eval_defs)

theorem check_unknown_id_unchanged_witness:
  "cmd_check small_dir None 999 (ustr ''A'') = (Inr (CheckNotFound 999), None)"
proof -
  have h: "\<forall>f qs. small_dir f = Some qs \<longrightarrow> 999 \<notin> qid ` set qs"
    by (auto simp: small_dir_def judge_question_def split: if_splits)
  show ?thesis using check_unknown_id_unchanged[OF h, of None "ustr ''A''"] by simp
qed


theorem check_judge_synonyms_witness:
  "find_question_by_id small_dir 10001 = Some judge_question \<and> qtype judge_question = ustr ''judge'' \<and>
   verdict (fst (cmd_check small_dir None 10001 (ustr ''TRUE''))) = verdict (fst (cmd_check small_dir None 10001 dui))"
proof -
  have j: "qtype judge_question = ustr ''judge''" by (simp add: judge_question_def)
  show ?thesis using check_judge_synonyms[OF small_dir_find j, of None] small_dir_find j by simp
qed

subsection \<open>Favorites\<close>

text \<open>
  Claim C10. For an id that is not in \<open>favorites\<close> (also when the file or the key is
  absent, and whatever the corpus files hold) \<open>unfavorite\<close> reports
  \<open>not_in_favorites\<close> and leaves the progress file as it was. The command has no
  access to the data directory, so it cannot fail with a missing question.
\<close>

theorem unfavorite_absent_id_noop:
  assumes "i \<notin> set (get_or (favorites (load_progress pf)) [])"
  shows "cmd_unfavorite pf i = (Inr (NotInFavorites i), pf)"
  using assms
  by (cases "favorites (load_progress pf)")
     (simp_all add: cmd_unfavorite_def ensure_fields_def field_def get_or_def Let_def)

theorem unfavorite_absent_id_noop_witness:
  "cmd_unfavorite None 424242 = (Inr (NotInFavorites 424242), None)"
proof -
  have "424242 \<notin> set (get_or (favorites (load_progress None)) [])"
    by (simp add: load_progress_def default_progress_def get_or_def)
  then show ?thesis by (rule unfavorite_absent_id_noop)
qed

text \<open>
  Claim C9 as stated fails when the id in \<open>favorites\<close> is in no corpus file: the lookup
  comes first, and the command reports the missing question.
\<close>

theorem favorite_orphan_id_counterexample:
  "favorites (load_progress orphan_favorite_file) = Some [7] \<and>
   cmd_favorite empty_dir orphan_favorite_file 7 = (Inr (FavNotFound 7), orphan_favorite_file)"
proof -
  have "find_question_by_id empty_dir 7 = None"
    by (rule find_question_by_id_absent) (simp add: empty_dir_def)
  then show ?thesis
    by (simp add: cmd_favorite_def orphan_favorite_file_def load_progress_def)
qed

lemma favorite_file_cases:
  "snd (cmd_favorite dd pf j) = pf \<or>
   (\<exists>favs. favorites (ensure_fields (load_progress pf)) = Some favs \<and> j \<notin> set favs \<and>
      find_question_by_id dd j \<noteq> None \<and>
      snd (cmd_favorite dd pf j) = Some ((ensure_fields (load_progress pf))\<lparr>favorites := Some (favs @ [j])\<rparr>))"
  by (cases "favorites (load_progress pf)"; cases "find_question_by_id dd j")
     (auto simp: cmd_favorite_def ensure_fields_def field_def Let_def save_progress_def)

lemma ensure_fields_favorites:
  "favorites (ensure_fields p) = Some (get_or (favorites p) [])"
  by (cases "favorites p") (simp_all add: ensure_fields_def get_or_def)

text \<open>
  Claim C9, amended. For an id already in \<open>favorites\<close> the command leaves the progress
  file as it was and appends nothing; it reports \<open>already_favorited\<close> when the id is
  found in a corpus file and the missing question otherwise. For every progress file and
  every id, running the command a second time changes nothing more, and a duplicate-free
  \<open>favorites\<close> stays duplicate-free.
\<close>

theorem favorite_present_id_noop:
  "(favorites (load_progress pf) = Some favs \<and> i \<in> set favs \<longrightarrow>
      cmd_favorite dd pf i =
        (Inr (case find_question_by_id dd i of
                None \<Rightarrow> FavNotFound i
              | Some q \<Rightarrow> AlreadyFavorited i (int (length favs))), pf)) \<and>
   snd (cmd_favorite dd (snd (cmd_favorite dd pf j)) j) = snd (cmd_favorite dd pf j) \<and>
   (distinct (get_or (favorites (load_progress pf)) []) \<longrightarrow>
      distinct (get_or (favorites (load_progress (snd (cmd_favorite dd pf j)))) []))"
proof -
  have a: "cmd_favorite dd pf i =
           (Inr (case find_question_by_id dd i of
                   None \<Rightarrow> FavNotFound i
                 | Some q \<Rightarrow> AlreadyFavorited i (int (length favs))), pf)"
    if "favorites (load_progress pf) = Some favs" and "i \<in> set favs"
    using that
    by (cases "find_question_by_id dd i")
       (simp_all add: cmd_favorite_def ensure_fields_def field_def Let_def)
  let ?old = "get_or (favorites (load_progress pf)) []"
  have ef: "favorites (ensure_fields (load_progress pf)) = Some ?old"
    by (rule ensure_fields_favorites)
  consider (same) "snd (cmd_favorite dd pf j) = pf"
    | (added) "j \<notin> set ?old" "find_question_by_id dd j \<noteq> None"
        "snd (cmd_favorite dd pf j) = Some ((ensure_fields (load_progress pf))\<lparr>favorites := Some (?old @ [j])\<rparr>)"
    using favorite_file_cases[of dd pf j] ef by auto
  then have b: "snd (cmd_favorite dd (snd (cmd_favorite dd pf j)) j) = snd (cmd_favorite dd pf j) \<and>
         (distinct ?old \<longrightarrow>
            distinct (get_or (favorites (load_progress (snd (cmd_favorite dd pf j)))) []))"
  proof cases
    case same
    then show ?thesis by simp
  next
    case added
    then show ?thesis
      by (auto simp: cmd_favorite_def ensure_fields_def field_def Let_def load_progress_def get_or_def)
  qed
  show ?thesis using a b by blast
qed

theorem favorite_present_id_noop_witness:
  "cmd_favorite small_dir (Some (default_progress\<lparr>favorites := Some [10001]\<rparr>)) 10001 =
     (Inr (AlreadyFavorited 10001 1), Some (default_progress\<lparr>favorites := Some [10001]\<rparr>)) \<and>
   cmd_favorite small_dir None 10001 =
     (Inr (Favorited 10001 1), Some (default_progress\<lparr>favorites := Some [10001]\<rparr>)) \<and>
   snd (cmd_favorite small_dir (snd (cmd_favorite small_dir None 10001)) 10001) =
     snd (cmd_favorite small_dir None 10001)"
proof -
  have f: "favorites (load_progress (Some (default_progress\<lparr>favorites := Some [10001]\<rparr>))) = Some [10001]"
    by (simp add: load_progress_def)
  have fresh: "cmd_favorite small_dir None 10001 =
     (Inr (Favorited 10001 1), Some (default_progress\<lparr>favorites := Some [10001]\<rparr>))"
    using small_dir_find
    by (simp add: cmd_favorite_def load_progress_def default_progress_def ensure_fields_def
        field_def save_progress_def)
  show ?thesis
    using favorite_present_id_noop[of "Some (default_progress\<lparr>favorites := Some [10001]\<rparr>)"
        "[10001]" 10001 small_dir 10001]
      favorite_present_id_noop[of None "[]" 0 small_dir 10001] f fresh small_dir_find
    by simp
qed

subsection \<open>Progress store\<close>

text \<open>
  Claim C3 as stated fails: a stored record without \<open>total_answered\<close> is loaded without
  it, and the next check raises a \<open>KeyError\<close>.
\<close>

theorem ensure_fields_counterexample:
  "total_answered (ensure_fields (load_progress legacy_file)) = None \<and>
   cmd_check small_dir legacy_file 10001 dui = (Inl (KeyError ''total_answered''), legacy_file)"
  using small_dir_find
  by (simp add: cmd_check_def legacy_file_def load_progress_def ensure_fields_def record_answer_def
      and_then_def field_def)

text \<open>
  Claim C3, amended. Loading a stored record initialises \<open>favorites\<close>,
  \<open>sequential_pos\<close> and \<open>question_stats\<close> to their defaults when they are absent and
  keeps them otherwise; \<open>total_answered\<close>, \<open>total_correct\<close>, \<open>categories\<close> and
  \<open>wrong_questions\<close> are passed through as stored, absent when they were absent.
\<close>

theorem ensure_fields_repairs_three:
  "favorites (ensure_fields (load_progress (Some p))) = Some (get_or (favorites p) []) \<and>
   sequential_pos (ensure_fields (load_progress (Some p))) = Some (get_or (sequential_pos p) []) \<and>
   question_stats (ensure_fields (load_progress (Some p))) = Some (get_or (question_stats p) []) \<and>
   total_answered (ensure_fields (load_progress (Some p))) = total_answered p \<and>
   total_correct (ensure_fields (load_progress (Some p))) = total_correct p \<and>
   categories (ensure_fields (load_progress (Some p))) = categories p \<and>
   wrong_questions (ensure_fields (load_progress (Some p))) = wrong_questions p"
  by (simp add: ensure_fields_def load_progress_def get_or_def split: option.splits)

lemma record_exam_missing_key:
  assumes "resolve_vtype raw = Inr v" and "mock_exams (load_progress pf) = None"
  shows "cmd_record_exam pf now raw subj score total_n = (Inl (KeyError ''mock_exams''), pf)"
  using assms by (simp add: cmd_record_exam_def ensure_fields_def field_def Let_def)

subsection \<open>Sequential practice\<close>

lemma ensure_fields_sequential_pos:
  "sequential_pos (ensure_fields p) = Some (get_or (sequential_pos p) [])"
  by (cases "sequential_pos p") (simp_all add: ensure_fields_def get_or_def)

lemma cursor_of_saved:
  "cursor_of (save_progress (p\<lparr>sequential_pos := Some (AList.update key c sp)\<rparr>)) key = c"
  by (simp add: cursor_of_def save_progress_def load_progress_def ensure_fields_sequential_pos
      get_or_def update_conv')

lemma sequential_batch:
  assumes v: "resolve_vtype raw = Inr v" and c: "dd (corpus_file v subj) = Some qs"
    and cur: "cursor_of pf (pos_key v subj) = cur" and lo: "0 \<le> cur" and hi: "cur < int (length qs)"
    and cnt: "0 \<le> cnt"
  shows "\<exists>pf'. cmd_sequential dd pf raw subj cnt False =
           (Inr (SeqBatch
              \<lparr>sq_position = cur + 1, sq_end_position = min (cur + cnt) (int (length qs)),
               sq_total = int (length qs), sq_remaining = int (length qs) - min (cur + cnt) (int (length qs)),
               sq_count = min (cur + cnt) (int (length qs)) - cur,
               sq_questions = map format_question (take (nat (min (cur + cnt) (int (length qs)) - cur)) (drop (nat cur) qs))\<rparr>),
            pf') \<and>
         cursor_of pf' (pos_key v subj) = min (cur + cnt) (int (length qs))"
proof -
  let ?p = "ensure_fields (load_progress pf)"
  let ?sp = "get_or (sequential_pos (load_progress pf)) []"
  let ?e = "min (cur + cnt) (int (length qs))"
  have sp: "sequential_pos ?p = Some ?sp" by (rule ensure_fields_sequential_pos)
  have g: "get_or (map_of ?sp (pos_key v subj)) 0 = cur"
    using cur by (simp add: cursor_of_def sp get_or_def)
  have sl: "py_slice qs cur ?e = take (nat (?e - cur)) (drop (nat cur) qs)"
    using lo hi cnt by (auto simp: py_slice_def py_index_def min_def nat_diff_distrib)
  have ne: "qs \<noteq> []" using lo hi by auto
  have len: "int (length (take (nat (?e - cur)) (drop (nat cur) qs))) = ?e - cur"
    using lo hi cnt by (auto simp: min_def)
  have "cmd_sequential dd pf raw subj cnt False =
           (Inr (SeqBatch
              \<lparr>sq_position = cur + 1, sq_end_position = ?e,
               sq_total = int (length qs), sq_remaining = int (length qs) - ?e,
               sq_count = ?e - cur,
               sq_questions = map format_question (take (nat (?e - cur)) (drop (nat cur) qs))\<rparr>),
            save_progress (?p\<lparr>sequential_pos := Some (AList.update (pos_key v subj) ?e ?sp)\<rparr>))"
    using v c g hi lo len ne
    by (simp add: cmd_sequential_def load_questions_def sp field_def Let_def sl)
  then show ?thesis using cursor_of_saved by blast
qed

lemma sequential_done:
  assumes v: "resolve_vtype raw = Inr v" and c: "dd (corpus_file v subj) = Some qs"
    and cur: "cursor_of pf (pos_key v subj) = cur" and hi: "int (length qs) \<le> cur"
  shows "cmd_sequential dd pf raw subj cnt False = (Inr (SeqDone cur (int (length qs))), pf)"
proof -
  let ?sp = "get_or (sequential_pos (load_progress pf)) []"
  have sp: "sequential_pos (ensure_fields (load_progress pf)) = Some ?sp" by (rule ensure_fields_sequential_pos)
  have g: "get_or (map_of ?sp (pos_key v subj)) 0 = cur"
    using cur by (simp add: cursor_of_def sp get_or_def)
  show ?thesis using v c g hi
    by (simp add: cmd_sequential_def load_questions_def sp field_def Let_def)
qed

text \<open>
  Claim C5. On a corpus of 12 questions with the cursor at 0, a call with count 5 returns
  the first five questions, reports position 1 and end position 5, and saves the cursor 5;
  the next call returns questions 6 to 10 and saves the cursor 10; with the cursor at 12
  the command reports completion and leaves the progress file as it was.
\<close>

theorem sequential_twelve_questions:
  assumes v: "resolve_vtype raw = Inr v" and c: "dd (corpus_file v subj) = Some qs"
    and n: "length qs = 12"
    and start: "cursor_of pf0 (pos_key v subj) = 0"
    and fin: "cursor_of pf12 (pos_key v subj) = 12"
  shows "\<exists>pf1 pf2.
           cmd_sequential dd pf0 raw subj 5 False =
             (Inr (SeqBatch \<lparr>sq_position = 1, sq_end_position = 5, sq_total = 12, sq_remaining = 7,
                 sq_count = 5, sq_questions = map format_question (take 5 qs)\<rparr>), pf1) \<and>
           cursor_of pf1 (pos_key v subj) = 5 \<and>
           cmd_sequential dd pf1 raw subj 5 False =
             (Inr (SeqBatch \<lparr>sq_position = 6, sq_end_position = 10, sq_total = 12, sq_remaining = 2,
                 sq_count = 5, sq_questions = map format_question (take 5 (drop 5 qs))\<rparr>), pf2) \<and>
           cursor_of pf2 (pos_key v subj) = 10 \<and>
           cmd_sequential dd pf12 raw subj cnt False = (Inr (SeqDone 12 12), pf12)"
proof -
  obtain pf1 where 1: "cmd_sequential dd pf0 raw subj 5 False =
             (Inr (SeqBatch \<lparr>sq_position = 1, sq_end_position = 5, sq_total = 12, sq_remaining = 7,
                 sq_count = 5, sq_questions = map format_question (take 5 qs)\<rparr>), pf1)"
      and c1: "cursor_of pf1 (pos_key v subj) = 5"
    using sequential_batch[of raw v dd subj qs pf0 0 5] v c start n by auto
  obtain pf2 where 2: "cmd_sequential dd pf1 raw subj 5 False =
             (Inr (SeqBatch \<lparr>sq_position = 6, sq_end_position = 10, sq_total = 12, sq_remaining = 2,
                 sq_count = 5, sq_questions = map format_question (take 5 (drop 5 qs))\<rparr>), pf2)"
      and c2: "cursor_of pf2 (pos_key v subj) = 10"
    using sequential_batch[of raw v dd subj qs pf1 5 5] v c c1 n by auto
  have 3: "cmd_sequential dd pf12 raw subj cnt False = (Inr (SeqDone 12 12), pf12)"
    using sequential_done[of raw v dd subj qs pf12 12 cnt] v c fin n by simp
  show ?thesis using 1 c1 2 c2 3 by blast
qed

lemma resolve_C1: "resolve_vtype (ustr ''C1'') = Inr (ustr ''c1'')"
  by (simp add: resolve_vtype_def VTYPE_ALIAS_def py_lower_def py_strip_def py_isspace_def ustr_def)

theorem sequential_twelve_questions_witness:
  "\<exists>pf1 pf2.
     cmd_sequential twelve_dir None (ustr ''C1'') 1 5 False =
       (Inr (SeqBatch \<lparr>sq_position = 1, sq_end_position = 5, sq_total = 12, sq_remaining = 7,
           sq_count = 5, sq_questions = map format_question (take 5 twelve_questions)\<rparr>), pf1) \<and>
     cursor_of pf1 (pos_key (ustr ''c1'') 1) = 5 \<and>
     cmd_sequential twelve_dir pf1 (ustr ''C1'') 1 5 False =
       (Inr (SeqBatch \<lparr>sq_position = 6, sq_end_position = 10, sq_total = 12, sq_remaining = 2,
           sq_count = 5, sq_questions = map format_question (take 5 (drop 5 twelve_questions))\<rparr>), pf2) \<and>
     cursor_of pf2 (pos_key (ustr ''c1'') 1) = 10 \<and>
     cmd_sequential twelve_dir finished_file (ustr ''C1'') 1 5 False = (Inr (SeqDone 12 12), finished_file)"
proof -
  have c: "twelve_dir (corpus_file (ustr ''c1'') 1) = Some twelve_questions"
    by (simp add: twelve_dir_def)
  have n: "length twelve_questions = 12" by (simp add: twelve_questions_def)
  have s: "cursor_of None (pos_key (ustr ''c1'') 1) = 0"
    by (simp add: cursor_of_def load_progress_def default_progress_def ensure_fields_def get_or_def)
  have f: "cursor_of finished_file (pos_key (ustr ''c1'') 1) = 12"
    by (simp add: cursor_of_def finished_file_def load_progress_def default_progress_def
        ensure_fields_def get_or_def)
  show ?thesis
    by (rule sequential_twelve_questions[where dd = twelve_dir and cnt = 5, OF resolve_C1 c n s f])
qed

subsection \<open>Double precision\<close>

lemma pow2_add: "(2::rat) powi (a + b) = 2 powi a * 2 powi b"
  by (simp add: power_int_add)

lemma pow2_succ: "(2::rat) powi (k + 1) = 2 * 2 powi k"
  using pow2_add[of k 1] by simp

lemma pow2_pred: "(2::rat) powi k = 2 * 2 powi (k - 1)"
  using pow2_succ[of "k - 1"] by simp

lemma pow2_mono: "a \<le> b \<Longrightarrow> (2::rat) powi a \<le> 2 powi b"
  by (rule power_int_increasing) simp_all

lemma pow2_strict: "a < b \<Longrightarrow> (2::rat) powi a < 2 powi b"
  by (rule power_int_strict_increasing) simp_all

lemma pow2_pos: "0 < (2::rat) powi a"
  by simp

lemma bit_length_bounds:
  "0 < n \<Longrightarrow> 1 \<le> bit_length n \<and> (2::rat) powi (bit_length n - 1) \<le> of_int n \<and>
     of_int n < (2::rat) powi (bit_length n)"
proof (induction n rule: bit_length.induct)
  case (1 n)
  show ?case
  proof (cases "n = 1")
    case True
    have "bit_length 1 = 1"
      by (simp add: bit_length.simps[of 1] bit_length.simps[of 0])
    with True show ?thesis by simp
  next
    case False
    with "1.prems" have h: "0 < n div 2" by simp
    from "1.prems" have "\<not> n \<le> 0" by simp
    from "1.IH"[OF this h] have
      ih: "1 \<le> bit_length (n div 2)"
        "(2::rat) powi (bit_length (n div 2) - 1) \<le> of_int (n div 2)"
        "of_int (n div 2) < (2::rat) powi (bit_length (n div 2))"
      by simp_all
    have bl: "bit_length n = 1 + bit_length (n div 2)"
      using "1.prems" by (simp add: bit_length.simps[of n])
    have lo: "(2::rat) powi (bit_length n - 1) \<le> of_int n"
    proof -
      have "(2::rat) powi (bit_length n - 1) = 2 * 2 powi (bit_length (n div 2) - 1)"
        unfolding bl using pow2_pred[of "bit_length (n div 2)"] by simp
      also have "\<dots> \<le> 2 * of_int (n div 2)" using ih(2) by simp
      also have "\<dots> = of_int (2 * (n div 2))" by simp
      also have "\<dots> \<le> of_int n" by (subst of_int_le_iff) simp
      finally show ?thesis .
    qed
    have hi: "of_int n < (2::rat) powi (bit_length n)"
    proof -
      from ih(3) ih(1) have "of_int (n div 2) < (2::rat) ^ nat (bit_length (n div 2))"
        by (simp add: power_int_def)
      then have "of_int (n div 2) < (of_int (2 ^ nat (bit_length (n div 2))) :: rat)" by simp
      then have "n div 2 < 2 ^ nat (bit_length (n div 2))" by (simp only: of_int_less_iff)
      then have "n div 2 + 1 \<le> 2 ^ nat (bit_length (n div 2))" by simp
      then have "n < 2 * 2 ^ nat (bit_length (n div 2))" by linarith
      then have "(of_int n :: rat) < of_int (2 * 2 ^ nat (bit_length (n div 2)))"
        by (simp only: of_int_less_iff)
      also have "\<dots> = 2 powi (bit_length n)"
        using ih(1) by (simp add: bl power_int_def nat_add_distrib)
      finally show ?thesis .
    qed
    from bl ih(1) lo hi show ?thesis by simp
  qed
qed


lemma binary_exponent_bounds:
  assumes "0 < q"
  shows "2 powi (binary_exponent q) \<le> q \<and> q < 2 powi (binary_exponent q + 1)"
proof -
  obtain n d where nd: "quotient_of q = (n, d)" by (cases "quotient_of q")
  then have d: "0 < d" by (rule quotient_of_denom_pos)
  from nd have q: "q = of_int n / of_int d" by (rule quotient_of_div)
  with assms d have n: "0 < n" by (simp add: zero_less_divide_iff)
  let ?k = "bit_length n - bit_length d"
  from bit_length_bounds[OF n] have
    n1: "(2::rat) powi (bit_length n - 1) \<le> of_int n" and n2: "of_int n < (2::rat) powi (bit_length n)"
    by simp_all
  from bit_length_bounds[OF d] have
    d1: "(2::rat) powi (bit_length d - 1) \<le> of_int d" and d2: "of_int d < (2::rat) powi (bit_length d)"
    by simp_all
  have dpos: "(0::rat) < of_int d" using d by simp
  have up: "q < 2 powi (?k + 1)"
  proof -
    have "of_int n < (2::rat) powi (?k + 1) * 2 powi (bit_length d - 1)"
      using n2 by (simp flip: pow2_add)
    also have "\<dots> \<le> 2 powi (?k + 1) * of_int d"
      using d1 pow2_pos[of "?k + 1"] by (simp only: mult_le_cancel_left_pos)
    finally show ?thesis using dpos by (simp add: q pos_divide_less_eq)
  qed
  have low: "2 powi (?k - 1) \<le> q"
  proof -
    have "(2::rat) powi (?k - 1) * of_int d \<le> 2 powi (?k - 1) * 2 powi (bit_length d)"
      using d2 pow2_pos[of "?k - 1"] by (simp only: mult_le_cancel_left_pos less_imp_le)
    also have "\<dots> = 2 powi (bit_length n - 1)" by (simp flip: pow2_add)
    also have "\<dots> \<le> of_int n" by (rule n1)
    finally show ?thesis using dpos by (simp add: q pos_le_divide_eq)
  qed
  show ?thesis
  proof (cases "2 powi ?k \<le> q")
    case True
    then have "binary_exponent q = ?k" by (simp add: binary_exponent_def nd)
    with True up show ?thesis by simp
  next
    case False
    then have "binary_exponent q = ?k - 1" by (simp add: binary_exponent_def nd)
    with False low show ?thesis by simp
  qed
qed

lemma round_half_even_bounds:
  "of_int (round_half_even y) \<le> y + 1 / 2" "y - 1 / 2 \<le> of_int (round_half_even y)"
  unfolding round_half_even_def Let_def by (auto; linarith)+

lemma round_half_even_le: "y \<le> of_int N \<Longrightarrow> round_half_even y \<le> N"
proof -
  assume "y \<le> of_int N"
  then have "\<lfloor>y\<rfloor> \<le> N" by (simp add: floor_le_iff)
  moreover have "round_half_even y = \<lfloor>y\<rfloor>" if "\<lfloor>y\<rfloor> = N"
  proof -
    from that \<open>y \<le> of_int N\<close> have "y = of_int \<lfloor>y\<rfloor>" by linarith
    then have "y - of_int \<lfloor>y\<rfloor> = 0" by simp
    then show ?thesis by (simp add: round_half_even_def Let_def)
  qed
  moreover have "round_half_even y \<le> \<lfloor>y\<rfloor> + 1"
    by (simp add: round_half_even_def Let_def)
  ultimately show ?thesis by (cases "\<lfloor>y\<rfloor> = N") auto
qed

lemma round_half_even_ge: "of_int N \<le> y \<Longrightarrow> N \<le> round_half_even y"
proof -
  assume "of_int N \<le> y"
  then have "N \<le> \<lfloor>y\<rfloor>" by (simp add: le_floor_iff)
  moreover have "\<lfloor>y\<rfloor> \<le> round_half_even y"
    by (simp add: round_half_even_def Let_def)
  ultimately show ?thesis by simp
qed


lemma round_double_unfold:
  assumes "q \<noteq> 0"
  defines "e \<equiv> max (binary_exponent \<bar>q\<bar>) (- 1022)"
  defines "r \<equiv> of_int (round_half_even (\<bar>q\<bar> / 2 powi (e - 52))) * 2 powi (e - 52)"
  shows "round_double q = (if 2 powi 1024 \<le> r then None else Some (if q < 0 then - r else r))"
  using assms(1) by (simp add: round_double_def Let_def e_def r_def)

lemma round_double_finite:
  assumes "\<bar>q\<bar> < 2 powi 1024 - 2 powi 970"
  shows "\<exists>x. round_double q = Some x"
proof (cases "q = 0")
  case True
  then show ?thesis by (simp add: round_double_def)
next
  case False
  define m where "m = \<bar>q\<bar>"
  define e where "e = max (binary_exponent m) (- 1022)"
  define ulp :: rat where "ulp = 2 powi (e - 52)"
  define r where "r = of_int (round_half_even (m / ulp)) * ulp"
  have m: "0 < m" using False by (simp add: m_def)
  have ulp: "0 < ulp" by (simp add: ulp_def)
  from binary_exponent_bounds[OF m] have lo: "2 powi (binary_exponent m) \<le> m" by simp
  have "m < 2 powi 1024" using assms pow2_pos[of 970] by (simp add: m_def)
  with lo have "(2::rat) powi (binary_exponent m) < 2 powi 1024" by simp
  then have "binary_exponent m < 1024"
    using pow2_mono[of 1024 "binary_exponent m"] by (cases "binary_exponent m < 1024") auto
  then have e: "e \<le> 1023" by (simp add: e_def)
  then have "ulp \<le> 2 powi 971" unfolding ulp_def by (intro pow2_mono) simp
  also have "\<dots> = 2 * 2 powi 970" using pow2_succ[of 970] by simp
  finally have u: "ulp / 2 \<le> 2 powi 970" by simp
  have "of_int (round_half_even (m / ulp)) \<le> m / ulp + 1 / 2"
    by (rule round_half_even_bounds)
  then have "r \<le> (m / ulp + 1 / 2) * ulp"
    unfolding r_def using ulp by (simp only: mult_le_cancel_right_pos)
  also have "\<dots> = m + ulp / 2" using ulp by (simp add: field_simps)
  also have "\<dots> < 2 powi 1024" using assms u by (simp add: m_def)
  finally have "\<not> 2 powi 1024 \<le> r" by simp
  then show ?thesis
    using round_double_unfold[OF False] by (simp add: r_def ulp_def e_def m_def)
qed

lemma round_double_range:
  assumes "round_double q = Some x"
  shows "\<bar>x\<bar> \<le> 2 powi 1024 - 2 powi 971"
proof (cases "q = 0")
  case True
  with assms have "x = 0" by (simp add: round_double_def)
  moreover have "(2::rat) powi 971 < 2 powi 1024" by (rule pow2_strict) simp
  ultimately show ?thesis by simp
next
  case False
  define m where "m = \<bar>q\<bar>"
  define e where "e = max (binary_exponent m) (- 1022)"
  define ulp :: rat where "ulp = 2 powi (e - 52)"
  define N where "N = round_half_even (m / ulp)"
  define r where "r = of_int N * ulp"
  have m: "0 < m" using False by (simp add: m_def)
  have ulp: "0 < ulp" by (simp add: ulp_def)
  have rd: "round_double q = (if 2 powi 1024 \<le> r then None else Some (if q < 0 then - r else r))"
    using round_double_unfold[OF False] by (simp add: r_def N_def ulp_def e_def m_def)
  with assms have fin: "r < 2 powi 1024" and x: "\<bar>x\<bar> = \<bar>r\<bar>"
    by (auto split: if_splits)
  from binary_exponent_bounds[OF m] have
    lo: "2 powi (binary_exponent m) \<le> m" and hi: "m < 2 powi (binary_exponent m + 1)" by simp_all
  have "m < 2 powi (e + 1)"
    using hi pow2_mono[of "binary_exponent m + 1" "e + 1"] by (simp add: e_def)
  also have "\<dots> = 2 powi 53 * ulp" unfolding ulp_def using pow2_add[of 53 "e - 52"] by (simp add: add.commute)
  finally have "m / ulp < 2 powi 53" using ulp by (simp add: pos_divide_less_eq)
  then have "m / ulp \<le> of_int (2 ^ 53)" by simp
  then have N53: "N \<le> 2 ^ 53" unfolding N_def by (rule round_half_even_le)
  have N0: "0 \<le> N" unfolding N_def using m ulp by (intro round_half_even_ge) simp
  then have r0: "0 \<le> r" using ulp by (simp add: r_def)
  have "r \<le> 2 powi 1024 - 2 powi 971"
  proof (cases "e \<le> 1022")
    case True
    have "r \<le> of_int (2 ^ 53) * ulp"
      unfolding r_def using N53 ulp by (simp only: mult_le_cancel_right_pos of_int_le_iff)
    also have "\<dots> = 2 powi (e + 1)" unfolding ulp_def using pow2_add[of 53 "e - 52"] by (simp add: add.commute)
    also have "\<dots> \<le> 2 powi 1023" using True by (intro pow2_mono) simp
    also have "\<dots> \<le> 2 powi 1024 - 2 powi 971"
    proof -
      have "(2::rat) powi 971 \<le> 2 powi 1023" by (rule pow2_mono) simp
      moreover have "(2::rat) powi 1024 = 2 * 2 powi 1023" using pow2_succ[of 1023] by simp
      ultimately show ?thesis by simp
    qed
    finally show ?thesis .
  next
    case False
    then have em: "e = binary_exponent m" by (simp add: e_def)
    have "2 powi 52 * ulp = 2 powi e" unfolding ulp_def using pow2_add[of 52 "e - 52"] by simp
    also have "\<dots> \<le> m" using lo em by simp
    finally have "of_int (2 ^ 52) \<le> m / ulp" using ulp by (simp add: pos_le_divide_eq)
    then have N52: "2 ^ 52 \<le> N" unfolding N_def by (rule round_half_even_ge)
    have "e \<le> 1023"
    proof (rule ccontr)
      assume "\<not> e \<le> 1023"
      then have "(2::rat) powi 1024 \<le> 2 powi e" by (intro pow2_mono) simp
      also have "\<dots> = of_int (2 ^ 52) * ulp" unfolding ulp_def using pow2_add[of 52 "e - 52"] by simp
      also have "\<dots> \<le> r"
        unfolding r_def using N52 ulp by (simp only: mult_le_cancel_right_pos of_int_le_iff)
      finally show False using fin by simp
    qed
    with False have e: "e = 1023" by simp
    then have ulp971: "ulp = 2 powi 971" by (simp add: ulp_def)
    have p: "(2::rat) powi 1024 = of_int (2 ^ 53) * ulp"
      unfolding ulp971 using pow2_add[of 53 971] by simp
    from fin have "of_int N * ulp < of_int (2 ^ 53) * ulp" by (simp only: r_def p)
    then have "(of_int N :: rat) < of_int (2 ^ 53)" using ulp by (simp only: mult_less_cancel_right_pos)
    then have "N < 2 ^ 53" by (simp only: of_int_less_iff)
    then have "N \<le> 2 ^ 53 - 1" by simp
    then have "(of_int N :: rat) \<le> of_int (2 ^ 53 - 1)" by (simp only: of_int_le_iff)
    then have "r \<le> of_int (2 ^ 53 - 1) * ulp"
      unfolding r_def using ulp by (simp only: mult_le_cancel_right_pos)
    also have "\<dots> = of_int (2 ^ 53) * ulp - ulp" by (simp add: algebra_simps)
    also have "\<dots> = 2 powi 1024 - 2 powi 971" by (simp only: p ulp971)
    finally show ?thesis .
  qed
  with r0 x show ?thesis by simp
qed

lemma one_minus_double_finite:
  assumes "round_double q = Some x"
  shows "\<exists>y. round_double (1 - x) = Some y"
proof -
  have "\<bar>1 - x\<bar> \<le> 1 + \<bar>x\<bar>" by simp
  also have "\<dots> \<le> 1 + (2 powi 1024 - 2 powi 971)"
    using round_double_range[OF assms] by simp
  also have "\<dots> < 2 powi 1024 - 2 powi 970"
  proof -
    have "(2::rat) powi 971 = 2 * 2 powi 970" using pow2_succ[of 970] by simp
    moreover have "(1::rat) < 2 powi 970" using pow2_strict[of 0 970] by simp
    ultimately show ?thesis by simp
  qed
  finally show ?thesis by (rule round_double_finite)
qed

lemma unit_quotient_finite:
  assumes "0 \<le> c" and "c \<le> a" and "0 < a"
  shows "\<exists>x. round_double (of_int c / of_int a) = Some x"
proof -
  have "\<bar>of_int c / of_int a :: rat\<bar> \<le> 1" using assms by simp
  also have "\<dots> < 2 powi 1024 - 2 powi 970"
  proof -
    have "(2::rat) powi 1024 = 2 powi 54 * 2 powi 970" using pow2_add[of 54 970] by simp
    moreover have "(1::rat) < 2 powi 970" using pow2_strict[of 0 970] by simp
    ultimately show ?thesis by simp
  qed
  finally show ?thesis by (rule round_double_finite)
qed

text \<open>
  The rounding on known values: the doubles of \<open>0.1\<close> and \<open>1 / 3\<close>, and the two
  directions of a tie between neighbouring doubles above 1.
\<close>

lemma round_double_tenth: "round_double (1 / 10) = Some (3602879701896397 / 36028797018963968)"
  by code_simp

lemma round_double_third: "round_double (1 / 3) = Some (6004799503160661 / 18014398509481984)"
  by code_simp

lemma round_double_tie_even: "round_double (1 + 1 / 9007199254740992) = Some 1"
  by code_simp

lemma round_double_tie_odd:
  "round_double (1 + 3 / 9007199254740992) = Some (1 + 4 / 9007199254740992)"
  by code_simp

subsection \<open>Difficulty ranking\<close>

lemma error_rate_failure:
  assumes "0 < attempts s" and "error_rate s = Inl e"
  shows "e = OverflowError \<and> round_double (of_int (st_correct s) / of_int (attempts s)) = None"
proof (cases "round_double (of_int (st_correct s) / of_int (attempts s))")
  case None
  with assms show ?thesis by (simp add: error_rate_def int_truediv_def and_then_def)
next
  case (Some x)
  from one_minus_double_finite[OF Some] obtain y where "round_double (1 - x) = Some y" ..
  with Some assms show ?thesis
    by (simp add: error_rate_def int_truediv_def and_then_def float_sub_def)
qed

lemma error_rate_total:
  assumes "0 < attempts s" and "0 \<le> st_correct s" and "st_correct s \<le> attempts s"
  shows "\<exists>er. error_rate s = Inr er"
proof -
  from unit_quotient_finite[OF assms(2,3,1)]
  obtain x where x: "round_double (of_int (st_correct s) / of_int (attempts s)) = Some x" ..
  from one_minus_double_finite[OF x] obtain y where "round_double (1 - x) = Some y" ..
  with x assms(1) show ?thesis
    by (simp add: error_rate_def int_truediv_def and_then_def float_sub_def)
qed

lemma score_all_pool:
  "score_all st qs = Inr sc \<Longrightarrow>
   map fst sc = filter (\<lambda>q. \<exists>s. map_of st (str_int (qid q)) = Some s \<and> 0 < attempts s) qs"
  by (induction qs arbitrary: sc)
     (auto simp: and_then_def split: option.splits if_splits sum.splits)

lemma score_all_values:
  "score_all st qs = Inr sc \<Longrightarrow> x \<in> set sc \<Longrightarrow>
   \<exists>s. map_of st (str_int (qid (fst x))) = Some s \<and> 0 < attempts s \<and>
       error_rate s = Inr (fst (snd x)) \<and> snd (snd x) = attempts s"
  by (induction qs arbitrary: sc)
     (auto simp: and_then_def split: option.splits if_splits sum.splits)

lemma score_all_failure:
  "score_all st qs = Inl e \<Longrightarrow> e = OverflowError"
  by (induction qs)
     (auto simp: and_then_def split: option.splits if_splits sum.splits dest: error_rate_failure)

lemma score_all_total:
  assumes "\<forall>q \<in> set qs. \<forall>s. map_of st (str_int (qid q)) = Some s \<longrightarrow>
             0 \<le> st_correct s \<and> st_correct s \<le> attempts s"
  shows "\<exists>sc. score_all st qs = Inr sc"
  using assms
proof (induction qs)
  case Nil
  show ?case by simp
next
  case (Cons q qs)
  then obtain rest where rest: "score_all st qs = Inr rest" by auto
  show ?case
  proof (cases "map_of st (str_int (qid q))")
    case None
    with rest show ?thesis by simp
  next
    case (Some s)
    show ?thesis
    proof (cases "0 < attempts s")
      case True
      from Cons.prems Some have "0 \<le> st_correct s" and "st_correct s \<le> attempts s" by auto
      from error_rate_total[OF True this] obtain er where "error_rate s = Inr er" ..
      with Some True rest show ?thesis by (simp add: and_then_def)
    next
      case False
      with Some rest show ?thesis by simp
    qed
  qed
qed

lemma hard_rank_sorted:
  "sorted_wrt (\<lambda>x y. fst (snd x) > fst (snd y) \<or> (fst (snd x) = fst (snd y) \<and> snd (snd x) \<ge> snd (snd y)))
     (hard_rank xs)"
proof -
  have "sorted (map (\<lambda>(q, er, att). (- er, - att)) (hard_rank xs))"
    by (simp add: hard_rank_def)
  then have "sorted_wrt (\<lambda>x y. (case x of (q, er, att) \<Rightarrow> (- er, - att)) \<le> (case y of (q, er, att) \<Rightarrow> (- er, - att)))
     (hard_rank xs)"
    by (simp add: sorted_map)
  then show ?thesis
    by (rule sorted_wrt_mono_rel[rotated]) (auto simp: less_eq_prod_def split: prod.splits)
qed

lemma hard_rank_mset: "mset (hard_rank xs) = mset xs"
  by (simp add: hard_rank_def)

lemma py_slice_to_take:
  "0 \<le> n \<Longrightarrow> py_slice_to xs (min n (int (length xs))) = take (nat n) xs"
  by (auto simp: py_slice_to_def py_index_def min_def)

lemma resolve_c1: "resolve_vtype (ustr ''c1'') = Inr (ustr ''c1'')"
  by (simp add: resolve_vtype_def VTYPE_ALIAS_def py_lower_def py_strip_def py_isspace_def ustr_def)

lemma cmd_hard_scored:
  assumes v: "resolve_vtype raw = Inr v" and c: "dd (corpus_file v subj) = Some qs"
    and n: "0 \<le> cnt"
    and sc: "scored_questions (ensure_fields (load_progress pf)) qs = Inr scored"
  shows "cmd_hard dd pf raw subj cnt =
           (if scored = [] then (Inr HardNoStats, pf)
            else (Inr (HardList (int (length scored)) (min cnt (int (length scored)))
                         (map hard_entry (take (nat cnt) (hard_rank scored)))), pf))"
proof -
  have len: "length (hard_rank scored) = length scored"
    using hard_rank_mset[of scored] by (metis size_mset)
  show ?thesis
    using v c sc len py_slice_to_take[OF n, of "hard_rank scored"]
    by (simp add: cmd_hard_def load_questions_def Let_def)
qed

lemma error_rate_0_of_1: "error_rate \<lparr>attempts = 1, st_correct = 0\<rparr> = Inr 1"
  by code_simp

lemma error_rate_1_of_2_60:
  "error_rate \<lparr>attempts = 1152921504606846976, st_correct = 1\<rparr> = Inr 1"
  by code_simp

lemma tie_scored:
  "scored_questions (ensure_fields (load_progress tie_file)) tie_questions =
     Inr [(mk_question 1 [20132], 1, 1), (mk_question 2 [20132], 1, 1152921504606846976)]"
  by (simp add: scored_questions_def tie_file_def load_progress_def default_progress_def
      ensure_fields_def get_or_def tie_questions_def mk_question_def str_int_def str_nat.simps
      and_then_def error_rate_0_of_1 error_rate_1_of_2_60)

text \<open>
  Claim C7 as stated fails when the error rate is read as the exact value of
  \<open>1 - correct / attempts\<close>. With id 1 at 0 of 1 correct and id 2 at 1 of \<open>2 ^ 60\<close>
  correct, the exact rate of id 1 is the higher one, yet both computed rates are the
  double \<open>1.0\<close>, the attempt count decides, and \<open>hard\<close> returns id 2 before id 1.
\<close>

theorem hard_ranking_counterexample:
  "cmd_hard tie_dir tie_file (ustr ''c1'') 1 10 =
     (Inr (HardList 2 2 [hard_entry (mk_question 2 [20132], 1, 1152921504606846976),
                         hard_entry (mk_question 1 [20132], 1, 1)]), tie_file) \<and>
   exact_error_rate \<lparr>attempts = 1152921504606846976, st_correct = 1\<rparr> <
     exact_error_rate \<lparr>attempts = 1, st_correct = 0\<rparr>"
proof -
  have c: "tie_dir (corpus_file (ustr ''c1'') 1) = Some tie_questions"
    by (simp add: tie_dir_def)
  have r: "hard_rank [(mk_question 1 [20132], 1, 1), (mk_question 2 [20132], 1, 1152921504606846976)] =
      [(mk_question 2 [20132], 1, 1152921504606846976), (mk_question 1 [20132], 1, 1)]"
    by (simp add: hard_rank_def less_eq_prod_def)
  have "cmd_hard tie_dir tie_file (ustr ''c1'') 1 10 =
     (Inr (HardList 2 2 [hard_entry (mk_question 2 [20132], 1, 1152921504606846976),
                         hard_entry (mk_question 1 [20132], 1, 1)]), tie_file)"
    using cmd_hard_scored[where dd = tie_dir and pf = tie_file and cnt = 10, OF resolve_c1 c _ tie_scored]
    by (simp add: r)
  moreover have "exact_error_rate \<lparr>attempts = 1152921504606846976, st_correct = 1\<rparr> <
     exact_error_rate \<lparr>attempts = 1, st_correct = 0\<rparr>"
    by (simp add: exact_error_rate_def)
  ultimately show ?thesis by simp
qed

text \<open>
  Claim C7, amended. The error rate of a question is the double that Python computes for
  \<open>1 - correct / attempts\<close>: the quotient rounded to a double, then its difference from
  1 rounded to a double. The pool of \<open>hard\<close> is exactly the questions of the corpus whose
  stats record at least one attempt, each scored with this computed rate and its attempt
  count. The ranking is a permutation of the pool in which an earlier entry has a higher
  computed rate than a later one, or the same computed rate and at least as many
  attempts. The command returns the first \<open>count\<close> entries of the ranking, and the
  no-stats message when the pool is empty. It computes the pool whenever every question's
  stats have \<open>0 \<le> correct \<le> attempts\<close>; otherwise it can only fail with the
  \<open>OverflowError\<close> of a quotient too large for a double, leaving the progress file as
  it is.
\<close>

theorem hard_ranking:
  assumes v: "resolve_vtype raw = Inr v" and c: "dd (corpus_file v subj) = Some qs"
    and n: "0 \<le> cnt"
    and p: "p = ensure_fields (load_progress pf)"
    and st: "stats = get_or (question_stats p) []"
    and rk: "ranked = hard_rank scored"
  shows "((\<forall>q \<in> set qs. \<forall>s. map_of stats (str_int (qid q)) = Some s \<longrightarrow>
             0 \<le> st_correct s \<and> st_correct s \<le> attempts s) \<longrightarrow>
          (\<exists>sc. scored_questions p qs = Inr sc)) \<and>
         (\<forall>e. scored_questions p qs = Inl e \<longrightarrow>
             e = OverflowError \<and> cmd_hard dd pf raw subj cnt = (Inl e, pf)) \<and>
         (scored_questions p qs = Inr scored \<longrightarrow>
            map fst scored =
              filter (\<lambda>q. \<exists>s. map_of stats (str_int (qid q)) = Some s \<and> 0 < attempts s) qs \<and>
            (\<forall>x \<in> set scored. \<exists>s. map_of stats (str_int (qid (fst x))) = Some s \<and>
               error_rate s = Inr (fst (snd x)) \<and> snd (snd x) = attempts s) \<and>
            mset ranked = mset scored \<and>
            sorted_wrt (\<lambda>x y. fst (snd x) > fst (snd y) \<or>
                               (fst (snd x) = fst (snd y) \<and> snd (snd x) \<ge> snd (snd y))) ranked \<and>
            cmd_hard dd pf raw subj cnt =
              (if scored = [] then (Inr HardNoStats, pf)
               else (Inr (HardList (int (length scored)) (min cnt (int (length scored)))
                            (map hard_entry (take (nat cnt) ranked))), pf)))"
proof -
  have a: "(\<forall>q \<in> set qs. \<forall>s. map_of stats (str_int (qid q)) = Some s \<longrightarrow>
             0 \<le> st_correct s \<and> st_correct s \<le> attempts s) \<longrightarrow>
          (\<exists>sc. scored_questions p qs = Inr sc)"
    unfolding scored_questions_def st using score_all_total by blast
  have b: "\<forall>e. scored_questions p qs = Inl e \<longrightarrow>
             e = OverflowError \<and> cmd_hard dd pf raw subj cnt = (Inl e, pf)"
  proof (intro allI impI conjI)
    fix e assume e: "scored_questions p qs = Inl e"
    then show "e = OverflowError"
      unfolding scored_questions_def by (rule score_all_failure)
    from e v c show "cmd_hard dd pf raw subj cnt = (Inl e, pf)"
      by (simp add: cmd_hard_def load_questions_def Let_def p[symmetric])
  qed
  have d: "scored_questions p qs = Inr scored \<longrightarrow>
            map fst scored =
              filter (\<lambda>q. \<exists>s. map_of stats (str_int (qid q)) = Some s \<and> 0 < attempts s) qs \<and>
            (\<forall>x \<in> set scored. \<exists>s. map_of stats (str_int (qid (fst x))) = Some s \<and>
               error_rate s = Inr (fst (snd x)) \<and> snd (snd x) = attempts s) \<and>
            mset ranked = mset scored \<and>
            sorted_wrt (\<lambda>x y. fst (snd x) > fst (snd y) \<or>
                               (fst (snd x) = fst (snd y) \<and> snd (snd x) \<ge> snd (snd y))) ranked \<and>
            cmd_hard dd pf raw subj cnt =
              (if scored = [] then (Inr HardNoStats, pf)
               else (Inr (HardList (int (length scored)) (min cnt (int (length scored)))
                            (map hard_entry (take (nat cnt) ranked))), pf))"
  proof
    assume sc: "scored_questions p qs = Inr scored"
    then have sa: "score_all stats qs = Inr scored"
      by (simp add: scored_questions_def st)
    have 1: "map fst scored =
        filter (\<lambda>q. \<exists>s. map_of stats (str_int (qid q)) = Some s \<and> 0 < attempts s) qs"
      using sa by (rule score_all_pool)
    have 2: "\<forall>x \<in> set scored. \<exists>s. map_of stats (str_int (qid (fst x))) = Some s \<and>
               error_rate s = Inr (fst (snd x)) \<and> snd (snd x) = attempts s"
      using score_all_values[OF sa] by blast
    have 3: "mset ranked = mset scored" unfolding rk by (rule hard_rank_mset)
    have 4: "sorted_wrt (\<lambda>x y. fst (snd x) > fst (snd y) \<or>
                               (fst (snd x) = fst (snd y) \<and> snd (snd x) \<ge> snd (snd y))) ranked"
      unfolding rk by (rule hard_rank_sorted)
    have 5: "cmd_hard dd pf raw subj cnt =
              (if scored = [] then (Inr HardNoStats, pf)
               else (Inr (HardList (int (length scored)) (min cnt (int (length scored)))
                            (map hard_entry (take (nat cnt) ranked))), pf))"
      unfolding rk using cmd_hard_scored[where dd = dd and pf = pf and scored = scored, OF v c n] sc p by simp
    show "map fst scored =
              filter (\<lambda>q. \<exists>s. map_of stats (str_int (qid q)) = Some s \<and> 0 < attempts s) qs \<and>
            (\<forall>x \<in> set scored. \<exists>s. map_of stats (str_int (qid (fst x))) = Some s \<and>
               error_rate s = Inr (fst (snd x)) \<and> snd (snd x) = attempts s) \<and>
            mset ranked = mset scored \<and>
            sorted_wrt (\<lambda>x y. fst (snd x) > fst (snd y) \<or>
                               (fst (snd x) = fst (snd y) \<and> snd (snd x) \<ge> snd (snd y))) ranked \<and>
            cmd_hard dd pf raw subj cnt =
              (if scored = [] then (Inr HardNoStats, pf)
               else (Inr (HardList (int (length scored)) (min cnt (int (length scored)))
                            (map hard_entry (take (nat cnt) ranked))), pf))"
      using 1 2 3 4 5 by blast
  qed
  show ?thesis using a b d by blast
qed

lemma error_rate_3_of_10:
  "error_rate \<lparr>attempts = 10, st_correct = 3\<rparr> = Inr (3152519739159347 / 4503599627370496)"
  by code_simp

lemma error_rate_8_of_10:
  "error_rate \<lparr>attempts = 10, st_correct = 8\<rparr> = Inr (900719925474099 / 4503599627370496)"
  by code_simp

lemma hard_scored:
  "scored_questions (ensure_fields (load_progress hard_file)) hard_questions =
     Inr [(mk_question 2 [20132], 900719925474099 / 4503599627370496, 10),
          (mk_question 1 [20132], 3152519739159347 / 4503599627370496, 10)]"
  by (simp add: scored_questions_def hard_file_def load_progress_def default_progress_def
      ensure_fields_def get_or_def hard_questions_def mk_question_def str_int_def str_nat.simps
      and_then_def error_rate_3_of_10 error_rate_8_of_10)

theorem hard_ranking_witness:
  "scored_questions (ensure_fields (load_progress hard_file)) hard_questions =
     Inr [(mk_question 2 [20132], 900719925474099 / 4503599627370496, 10),
          (mk_question 1 [20132], 3152519739159347 / 4503599627370496, 10)] \<and>
   cmd_hard hard_dir hard_file (ustr ''c1'') 1 10 =
     (Inr (HardList 2 2 [hard_entry (mk_question 1 [20132], 3152519739159347 / 4503599627370496, 10),
                         hard_entry (mk_question 2 [20132], 900719925474099 / 4503599627370496, 10)]),
      hard_file)"
proof -
  have c: "hard_dir (corpus_file (ustr ''c1'') 1) = Some hard_questions"
    by (simp add: hard_dir_def)
  have r: "hard_rank [(mk_question 2 [20132], 900719925474099 / 4503599627370496, 10),
                      (mk_question 1 [20132], 3152519739159347 / 4503599627370496, 10)] =
      [(mk_question 1 [20132], 3152519739159347 / 4503599627370496, 10),
       (mk_question 2 [20132], 900719925474099 / 4503599627370496, 10)]"
    by (simp add: hard_rank_def less_eq_prod_def)
  show ?thesis
    using hard_ranking[where dd = hard_dir and pf = hard_file and cnt = 10 and
        scored = "[(mk_question 2 [20132], 900719925474099 / 4503599627370496, 10),
                   (mk_question 1 [20132], 3152519739159347 / 4503599627370496, 10)]",
        OF resolve_c1 c _ refl refl refl]
    by (simp add: hard_scored r)
qed

subsection \<open>Curated subset\<close>

lemma by_category_snoc:
  "by_category (qs @ [q]) =
     AList.update (category q) (get_or (map_of (by_category qs) (category q)) [] @ [q]) (by_category qs)"
  by (simp add: by_category_def)

lemma by_category_Nil: "by_category [] = []"
  by (simp add: by_category_def)

lemma by_category_distinct: "distinct (map fst (by_category qs))"
  by (induction qs rule: rev_induct) (simp_all add: by_category_Nil by_category_snoc distinct_update)

lemma by_category_map_of:
  "map_of (by_category qs) c =
     (if c \<in> category ` set qs then Some (filter (\<lambda>q. category q = c) qs) else None)"
proof (induction qs rule: rev_induct)
  case Nil
  then show ?case by (simp add: by_category_Nil)
next
  case (snoc q qs)
  show ?case
  proof (cases "c = category q")
    case True
    show ?thesis
    proof (cases "category q \<in> category ` set qs")
      case True
      with \<open>c = category q\<close> snoc show ?thesis
        by (simp add: by_category_snoc update_conv' get_or_def)
    next
      case False
      then have "filter (\<lambda>x. category x = category q) qs = []"
        unfolding filter_empty_conv by (metis imageI)
      with False \<open>c = category q\<close> snoc show ?thesis
        by (simp add: by_category_snoc update_conv' get_or_def)
    qed
  next
    case False
    with snoc show ?thesis
      by (auto simp: by_category_snoc update_conv')
  qed
qed

lemma by_category_keys: "fst ` set (by_category qs) = category ` set qs"
proof -
  have "fst ` set (by_category qs) = dom (map_of (by_category qs))"
    by (simp add: dom_map_of_conv_image_fst)
  also have "\<dots> = category ` set qs"
    by (auto simp: by_category_map_of dom_def)
  finally show ?thesis .
qed

lemma by_category_entry:
  assumes "(c, l) \<in> set (by_category qs)"
  shows "l = filter (\<lambda>q. category q = c) qs \<and> l \<noteq> [] \<and> c \<in> category ` set qs"
proof -
  have "map_of (by_category qs) c = Some l"
    using assms by_category_distinct by simp
  then have l: "c \<in> category ` set qs" "l = filter (\<lambda>q. category q = c) qs"
    by (auto simp: by_category_map_of split: if_splits)
  then have "l \<noteq> []" by (auto simp: filter_empty_conv)
  with l show ?thesis by simp
qed

lemma by_category_length: "length (by_category qs) = card (category ` set qs)"
proof -
  have "length (by_category qs) = length (map fst (by_category qs))" by simp
  also have "\<dots> = card (set (map fst (by_category qs)))"
    using by_category_distinct[of qs] distinct_card[of "map fst (by_category qs)"] by simp
  also have "\<dots> = card (category ` set qs)"
    by (simp add: by_category_keys)
  finally show ?thesis .
qed

lemma by_category_as_map:
  "by_category qs = map (\<lambda>c. (c, filter (\<lambda>q. category q = c) qs)) (map fst (by_category qs))"
proof -
  have "map (\<lambda>x. (fst x, filter (\<lambda>q. category q = fst x) qs)) (by_category qs) = by_category qs"
    by (rule map_idI) (use by_category_entry in \<open>auto simp: prod_eq_iff\<close>)
  then show ?thesis by (simp add: comp_def)
qed

lemma by_category_sum:
  "sum_list (map (\<lambda>(c, l). f (length l)) (by_category qs)) =
     (\<Sum>c \<in> category ` set qs. f (length (filter (\<lambda>q. category q = c) qs)))"
proof -
  let ?h = "\<lambda>c. f (length (filter (\<lambda>q. category q = c) qs))"
  have "sum_list (map (\<lambda>(c, l). f (length l)) (by_category qs)) =
        sum_list (map (\<lambda>(c, l). f (length l)) (map (\<lambda>c. (c, filter (\<lambda>q. category q = c) qs)) (map fst (by_category qs))))"
    using by_category_as_map[of qs] by simp
  also have "\<dots> = sum_list (map ?h (map fst (by_category qs)))"
    by (simp add: comp_def)
  also have "\<dots> = sum ?h (set (map fst (by_category qs)))"
    using by_category_distinct by (rule sum_list_distinct_conv_sum_set)
  also have "\<dots> = sum ?h (category ` set qs)"
    by (simp add: by_category_keys)
  finally show ?thesis .
qed

lemma update_values_mset:
  "mset (concat (map snd (AList.update c (get_or (map_of acc c) [] @ [q]) acc))) =
     mset (concat (map snd acc)) + {#q#}"
  by (induction acc) (auto simp: get_or_def)

lemma by_category_mset: "mset (concat (map snd (by_category qs))) = mset qs"
  by (induction qs rule: rev_induct) (simp_all add: by_category_Nil by_category_snoc update_values_mset)

lemma valid_sampleD:
  assumes "valid_sample smp" and "k \<le> length xs"
  shows "length (fst (smp g xs k)) = k" and "mset (fst (smp g xs k)) \<subseteq># mset xs"
  using assms unfolding valid_sample_def by blast+

lemma sample_each_length:
  assumes "valid_sample smp"
  shows "length (fst (sample_each smp k cats g)) = sum_list (map (\<lambda>(c, l). min k (length l)) cats)"
proof (induction cats arbitrary: g)
  case Nil
  then show ?case by simp
next
  case (Cons a cats)
  obtain c l where a: "a = (c, l)" by (cases a)
  have "length (fst (smp g l (min k (length l)))) = min k (length l)"
    by (rule valid_sampleD(1)[OF assms]) simp
  then show ?case using Cons.IH
    by (simp add: a split: prod.splits) (metis fst_conv)
qed

lemma sample_each_mset:
  assumes "valid_sample smp"
  shows "mset (fst (sample_each smp k cats g)) \<subseteq># mset (concat (map snd cats))"
proof (induction cats arbitrary: g)
  case Nil
  then show ?case by simp
next
  case (Cons a cats)
  obtain c l where a: "a = (c, l)" by (cases a)
  obtain picked g1 where s: "smp g l (min k (length l)) = (picked, g1)" by (cases "smp g l (min k (length l))")
  obtain others g2 where r: "sample_each smp k cats g1 = (others, g2)" by (cases "sample_each smp k cats g1")
  have "mset picked \<subseteq># mset l"
    using valid_sampleD(2)[OF assms, of "min k (length l)" l g] s by simp
  moreover have "mset others \<subseteq># mset (concat (map snd cats))"
    using Cons.IH[of g1] r by simp
  ultimately show ?case
    by (simp add: a s r subset_mset.add_mono)
qed

lemma sample_each_covers:
  assumes "valid_sample smp" and "0 < k" and "(c, l) \<in> set cats" and "l \<noteq> []"
  shows "\<exists>q \<in> set (fst (sample_each smp k cats g)). q \<in> set l"
  using assms(3)
proof (induction cats arbitrary: g)
  case Nil
  then show ?case by simp
next
  case (Cons a cats)
  obtain c' l' where a: "a = (c', l')" by (cases a)
  obtain picked g1 where s: "smp g l' (min k (length l')) = (picked, g1)" by (cases "smp g l' (min k (length l'))")
  obtain others g2 where r: "sample_each smp k cats g1 = (others, g2)" by (cases "sample_each smp k cats g1")
  show ?case
  proof (cases "(c, l) = a")
    case True
    then have l': "l' = l" using a by simp
    have len: "length picked = min k (length l)"
      using valid_sampleD(1)[OF assms(1), of "min k (length l)" l g] s l' by simp
    have sub: "mset picked \<subseteq># mset l"
      using valid_sampleD(2)[OF assms(1), of "min k (length l)" l g] s l' by simp
    from len assms(2,4) have "picked \<noteq> []" by (cases l) auto
    then obtain q where "q \<in> set picked" by (cases picked) auto
    moreover from this sub have "q \<in> set l" by (meson mset_subset_eqD in_multiset_in_set)
    ultimately show ?thesis by (auto simp: a s r)
  next
    case False
    with Cons.prems have "(c, l) \<in> set cats" by auto
    from Cons.IH[OF this, of g1] r show ?thesis by (auto simp: a s)
  qed
qed

lemma py_slice_to_500: "py_slice_to xs 500 = take 500 xs"
  by (cases "500 \<le> length xs") (simp_all add: py_slice_to_def py_index_def min_def)

lemma top500_selected_shape:
  assumes vs: "valid_sample smp" and vh: "valid_shuffle shf"
  shows "\<exists>pu pc.
    mset (fst (top500_selected smp shf p qs g)) = mset (take 500 (wrong_pool p qs @ pu @ pc)) \<and>
    mset pu \<subseteq># mset (unanswered_pool p qs) \<and> mset pc \<subseteq># mset (correct_pool p qs) \<and>
    length pu =
      (if length (wrong_pool p qs) < 500 \<and> unanswered_pool p qs \<noteq> []
       then sum_list (map (\<lambda>(c, l). min (nat (max 1 ((500 - int (length (wrong_pool p qs))) div
                      int (length (by_category (unanswered_pool p qs)))))) (length l))
              (by_category (unanswered_pool p qs)))
       else 0) \<and>
    length pc = nat (min (500 - int (length (wrong_pool p qs) + length pu)) (int (length (correct_pool p qs)))) \<and>
    (length (wrong_pool p qs) < 500 \<longrightarrow>
       (\<forall>x \<in> set (by_category (unanswered_pool p qs)). \<exists>q \<in> set pu. q \<in> set (snd x)))"
proof -
  let ?W = "wrong_pool p qs" and ?U = "unanswered_pool p qs" and ?C = "correct_pool p qs"
  let ?B = "by_category ?U"
  define rem where "rem = 500 - int (length ?W)"
  define k where "k = nat (max 1 (rem div int (length ?B)))"
  define r1 where "r1 = (if rem > 0 \<and> ?U \<noteq> [] then sample_each smp k ?B g else ([], g))"
  define pu where "pu = fst r1"
  define rem2 where "rem2 = 500 - int (length (?W @ pu))"
  define r2 where "r2 = (if rem2 > 0 \<and> ?C \<noteq> [] then smp (snd r1) ?C (nat (min rem2 (int (length ?C)))) else ([], snd r1))"
  define pc where "pc = fst r2"
  have Bne: "?B \<noteq> []" if "?U \<noteq> []"
    using that by_category_keys[of ?U] by (cases ?U) auto
  have r1T: "r1 = sample_each smp k ?B g" if "rem > 0 \<and> ?U \<noteq> []"
    unfolding r1_def using that by (rule if_P)
  have r1F: "r1 = ([], g)" if "\<not> (rem > 0 \<and> ?U \<noteq> [])"
    unfolding r1_def using that by (rule if_not_P)
  have r2T: "r2 = smp (snd r1) ?C (nat (min rem2 (int (length ?C))))" if "rem2 > 0 \<and> ?C \<noteq> []"
    unfolding r2_def using that by (rule if_P)
  have r2F: "r2 = ([], snd r1)" if "\<not> (rem2 > 0 \<and> ?C \<noteq> [])"
    unfolding r2_def using that by (rule if_not_P)
  define X where "X =
    (if rem > 0 \<and> ?U \<noteq> []
     then case sample_each smp (nat (if ?B \<noteq> [] then max 1 (rem div int (length ?B)) else 0)) ?B g of
            (picked, g') \<Rightarrow> (?W @ picked, g')
     else (?W, g))"
  have XE: "X = (?W @ pu, snd r1)"
  proof (cases "rem > 0 \<and> ?U \<noteq> []")
    case True
    then have B: "?B \<noteq> []" using Bne by blast
    have "X = (case sample_each smp (nat (if ?B \<noteq> [] then max 1 (rem div int (length ?B)) else 0)) ?B g of
            (picked, g') \<Rightarrow> (?W @ picked, g'))"
      unfolding X_def using True by (rule if_P)
    also have "\<dots> = (case r1 of (picked, g') \<Rightarrow> (?W @ picked, g'))"
      using B by (simp add: r1T[OF True] k_def)
    also have "\<dots> = (?W @ pu, snd r1)"
      by (simp add: pu_def split_beta)
    finally show ?thesis .
  next
    case False
    have "X = (?W, g)" unfolding X_def using False by (rule if_not_P)
    then show ?thesis by (simp add: pu_def r1F[OF False])
  qed
  define Y where "Y =
    (if rem2 > 0 \<and> ?C \<noteq> []
     then case smp (snd r1) ?C (nat (min rem2 (int (length ?C)))) of
            (picked, g') \<Rightarrow> ((?W @ pu) @ picked, g')
     else (?W @ pu, snd r1))"
  have YE: "Y = (?W @ pu @ pc, snd r2)"
  proof (cases "rem2 > 0 \<and> ?C \<noteq> []")
    case True
    have "Y = (case smp (snd r1) ?C (nat (min rem2 (int (length ?C)))) of
            (picked, g') \<Rightarrow> ((?W @ pu) @ picked, g'))"
      unfolding Y_def using True by (rule if_P)
    also have "\<dots> = (case r2 of (picked, g') \<Rightarrow> ((?W @ pu) @ picked, g'))"
      by (simp add: r2T[OF True])
    also have "\<dots> = (?W @ pu @ pc, snd r2)"
      by (simp add: pc_def split_beta)
    finally show ?thesis .
  next
    case False
    have "Y = (?W @ pu, snd r1)" unfolding Y_def using False by (rule if_not_P)
    then show ?thesis by (simp add: pc_def r2F[OF False])
  qed
  have "top500_selected smp shf p qs g =
      (case X of (selected1, g1) \<Rightarrow>
         case (if 500 - int (length selected1) > 0 \<and> ?C \<noteq> []
               then case smp g1 ?C (nat (min (500 - int (length selected1)) (int (length ?C)))) of
                      (picked, g') \<Rightarrow> (selected1 @ picked, g')
               else (selected1, g1)) of
           (selected2, g2) \<Rightarrow> shf g2 (py_slice_to selected2 500))"
    unfolding top500_selected_def Let_def X_def rem_def ..
  also have "\<dots> = (case Y of (selected2, g2) \<Rightarrow> shf g2 (py_slice_to selected2 500))"
    unfolding XE prod.case Y_def rem2_def ..
  also have "\<dots> = shf (snd r2) (py_slice_to (?W @ pu @ pc) 500)"
    unfolding YE prod.case ..
  finally have sel: "top500_selected smp shf p qs g = shf (snd r2) (py_slice_to (?W @ pu @ pc) 500)" .
  have 1: "mset (fst (top500_selected smp shf p qs g)) = mset (take 500 (?W @ pu @ pc))"
    using vh by (simp add: sel valid_shuffle_def py_slice_to_500)
  have 2: "mset pu \<subseteq># mset ?U"
  proof (cases "rem > 0 \<and> ?U \<noteq> []")
    case True
    then have "mset pu \<subseteq># mset (concat (map snd ?B))"
      using sample_each_mset[OF vs, of k ?B g] by (simp add: pu_def r1T)
    then show ?thesis by (simp add: by_category_mset)
  next
    case False
    then show ?thesis by (simp add: pu_def r1F)
  qed
  have kpos: "0 < k" by (simp add: k_def)
  have 3: "mset pc \<subseteq># mset ?C"
  proof (cases "rem2 > 0 \<and> ?C \<noteq> []")
    case True
    then have "nat (min rem2 (int (length ?C))) \<le> length ?C" by simp
    from valid_sampleD(2)[OF vs this, of "snd r1"] show ?thesis
      by (simp add: pc_def r2T[OF True])
  next
    case False
    then show ?thesis by (simp add: pc_def r2F)
  qed
  have 4: "length pu = (if length ?W < 500 \<and> ?U \<noteq> []
       then sum_list (map (\<lambda>(c, l). min (nat (max 1 ((500 - int (length ?W)) div int (length ?B)))) (length l)) ?B)
       else 0)"
  proof (cases "rem > 0 \<and> ?U \<noteq> []")
    case True
    then have "length pu = sum_list (map (\<lambda>(c, l). min k (length l)) ?B)"
      using sample_each_length[OF vs, of k ?B g] by (simp add: pu_def r1T)
    with True show ?thesis by (simp add: rem_def k_def)
  next
    case False
    then have "r1 = ([], g)" by (rule r1F)
    then have "pu = []" by (simp add: pu_def)
    moreover from False have "\<not> (length ?W < 500 \<and> ?U \<noteq> [])" by (auto simp: rem_def)
    ultimately show ?thesis by (simp only: if_False list.size)
  qed
  have 5: "length pc = nat (min (500 - int (length ?W + length pu)) (int (length ?C)))"
  proof (cases "rem2 > 0 \<and> ?C \<noteq> []")
    case True
    then have "nat (min rem2 (int (length ?C))) \<le> length ?C" by simp
    from valid_sampleD(1)[OF vs this, of "snd r1"] show ?thesis
      by (simp add: pc_def r2T[OF True] rem2_def)
  next
    case False
    then have "pc = []" by (simp add: pc_def r2F)
    moreover from False have "nat (min rem2 (int (length ?C))) = 0" by auto
    ultimately show ?thesis by (simp add: rem2_def)
  qed
  have 6: "length ?W < 500 \<longrightarrow> (\<forall>x \<in> set ?B. \<exists>q \<in> set pu. q \<in> set (snd x))"
  proof (intro impI ballI)
    fix x assume w: "length ?W < 500" and x: "x \<in> set ?B"
    obtain c l where cl: "x = (c, l)" by (cases x)
    with x have "(c, l) \<in> set ?B" by simp
    then have ne: "l \<noteq> []" by (rule by_category_entry[THEN conjunct2, THEN conjunct1])
    from x have "?U \<noteq> []" by (auto simp: by_category_Nil)
    with w have "r1 = sample_each smp k ?B g" by (intro r1T) (simp add: rem_def)
    with sample_each_covers[OF vs kpos _ ne, of c ?B g] x cl
    show "\<exists>q \<in> set pu. q \<in> set (snd x)" by (simp add: pu_def)
  qed
  show ?thesis using 1 2 3 4 5 6 by blast
qed

lemma take_500_append:
  "length ws \<le> 500 \<Longrightarrow> take 500 (ws @ rest) = ws @ take (500 - length ws) rest"
  by simp

lemma selected_wrong_count:
  assumes vs: "valid_sample smp" and vh: "valid_shuffle shf"
    and w: "length (wrong_pool p qs) \<le> 500"
  shows "length (filter (\<lambda>q. qid q \<in> set (wrong_ids_of p)) (fst (top500_selected smp shf p qs g))) =
         length (wrong_pool p qs)"
proof -
  let ?P = "\<lambda>q. qid q \<in> set (wrong_ids_of p)"
  let ?S = "fst (top500_selected smp shf p qs g)"
  obtain pu pc where
    m: "mset ?S = mset (take 500 (wrong_pool p qs @ pu @ pc))" and
    u: "mset pu \<subseteq># mset (unanswered_pool p qs)" and c: "mset pc \<subseteq># mset (correct_pool p qs)"
    using top500_selected_shape[OF vs vh, of p qs g] by blast
  have notw: "\<not> ?P q" if "q \<in> set (pu @ pc)" for q
  proof -
    from that u c have "q \<in> set (unanswered_pool p qs) \<or> q \<in> set (correct_pool p qs)"
      by (auto dest: mset_subset_eqD)
    then show ?thesis by (auto simp: unanswered_pool_def correct_pool_def)
  qed
  have "filter ?P (take (500 - length (wrong_pool p qs)) (pu @ pc)) = []"
    unfolding filter_empty_conv using notw by (meson in_set_takeD)
  moreover have "filter ?P (wrong_pool p qs) = wrong_pool p qs"
    by (simp add: wrong_pool_def)
  ultimately have f: "filter ?P (take 500 (wrong_pool p qs @ pu @ pc)) = wrong_pool p qs"
    using w by (simp only: take_500_append filter_append append_Nil2)
  have "length (filter ?P ?S) = size (filter_mset ?P (mset ?S))"
    by (simp flip: mset_filter)
  also have "\<dots> = size (filter_mset ?P (mset (take 500 (wrong_pool p qs @ pu @ pc))))"
    by (simp only: m)
  also have "\<dots> = length (filter ?P (take 500 (wrong_pool p qs @ pu @ pc)))"
    by (simp flip: mset_filter)
  finally show ?thesis by (simp only: f)
qed

lemma three_way_count:
  "length (filter (\<lambda>q. f q \<notin> A \<and> f q \<notin> W) xs) + length (filter (\<lambda>q. f q \<in> A \<and> f q \<notin> W) xs) +
   length (filter (\<lambda>q. f q \<in> W) xs) = length xs"
  by (induction xs) auto

text \<open>
  Claim C1, amended. The composition that \<open>top500\<close> reports describes the whole curated
  set, whatever batch size is requested: \<open>unanswered\<close> and \<open>reviewed\<close> count the
  questions of the curated set of each kind, \<open>wrong\<close> is the size of the wrong pool, and
  when at most 500 questions of the corpus are currently wrong the three counts add up to
  \<open>total_selected\<close>. The batch is the first \<open>min(count, total_selected)\<close> questions of
  the curated set.
\<close>

theorem top500_composition_of_curated_set:
  assumes vs: "valid_sample smp" and vh: "valid_shuffle shf"
    and v: "resolve_vtype raw = Inr v" and c: "dd (corpus_file v subj) = Some qs"
    and p: "p = ensure_fields (load_progress pf)"
    and s: "selected = fst (top500_selected smp shf p qs g)"
  shows "\<exists>r. cmd_top500 smp shf dd pf raw subj cnt g = (Inr r, pf) \<and>
           t_total_selected r = int (length selected) \<and>
           comp_wrong (t_composition r) = int (length (wrong_pool p qs)) \<and>
           comp_unanswered (t_composition r) =
             int (length (filter (\<lambda>q. qid q \<notin> set (answered_ids_of p) \<and> qid q \<notin> set (wrong_ids_of p)) selected)) \<and>
           comp_reviewed (t_composition r) =
             int (length (filter (\<lambda>q. qid q \<in> set (answered_ids_of p) \<and> qid q \<notin> set (wrong_ids_of p)) selected)) \<and>
           (length (wrong_pool p qs) \<le> 500 \<longrightarrow>
              comp_wrong (t_composition r) + comp_unanswered (t_composition r) +
              comp_reviewed (t_composition r) = t_total_selected r) \<and>
           t_count r = min cnt (int (length selected)) \<and>
           t_questions r = map format_question (py_slice_to selected (min cnt (int (length selected))))"
proof -
  let ?A = "set (answered_ids_of p)" and ?Wi = "set (wrong_ids_of p)"
  define r where "r =
     \<lparr>t_total_selected = int (length selected),
      t_composition =
        \<lparr>comp_wrong = int (length (wrong_pool p qs)),
         comp_unanswered = int (length (filter (\<lambda>q. qid q \<notin> ?A \<and> qid q \<notin> ?Wi) selected)),
         comp_reviewed = int (length (filter (\<lambda>q. qid q \<in> ?A \<and> qid q \<notin> ?Wi) selected))\<rparr>,
      t_count = min cnt (int (length selected)),
      t_questions = map format_question (py_slice_to selected (min cnt (int (length selected))))\<rparr>"
  have run: "cmd_top500 smp shf dd pf raw subj cnt g = (Inr r, pf)"
    using v c by (simp add: cmd_top500_def load_questions_def Let_def r_def p s)
  have sum: "comp_wrong (t_composition r) + comp_unanswered (t_composition r) +
              comp_reviewed (t_composition r) = t_total_selected r"
    if w: "length (wrong_pool p qs) \<le> 500"
  proof -
    have "length (filter (\<lambda>q. qid q \<in> ?Wi) selected) = length (wrong_pool p qs)"
      unfolding s by (rule selected_wrong_count[OF vs vh w])
    with three_way_count[of qid ?A ?Wi selected] show ?thesis
      by (simp add: r_def)
  qed
  show ?thesis using run sum by (intro exI[of _ r]) (simp add: r_def)
qed

lemma valid_prefix_sample: "valid_sample prefix_sample"
proof -
  have "mset (take k xs) \<subseteq># mset xs" for k and xs :: "question list"
    by (metis append_take_drop_id mset_append mset_subset_eq_add_left)
  then show ?thesis by (simp add: valid_sample_def prefix_sample_def)
qed

lemma valid_keep_order: "valid_shuffle keep_order"
  by (simp add: valid_shuffle_def keep_order_def)

lemma three_selected:
  "fst (top500_selected prefix_sample keep_order (ensure_fields (load_progress None)) three_questions ()) =
     three_questions"
  by (simp add: top500_selected_def wrong_pool_def unanswered_pool_def correct_pool_def wrong_ids_of_def
      answered_ids_of_def load_progress_def default_progress_def ensure_fields_def get_or_def
      three_questions_def mk_question_def by_category_def prefix_sample_def keep_order_def
      py_slice_to_def py_index_def Let_def)

text \<open>
  Claim C1 as stated fails: on a corpus of three unseen questions and a requested count
  of 1 the batch holds one question, and the reported composition counts three unanswered
  questions, not the one of the batch.
\<close>

theorem top500_composition_counterexample:
  "cmd_top500 prefix_sample keep_order three_dir None (ustr ''c1'') 1 1 () =
     (Inr \<lparr>t_total_selected = 3,
           t_composition = \<lparr>comp_wrong = 0, comp_unanswered = 3, comp_reviewed = 0\<rparr>,
           t_count = 1,
           t_questions = [format_question (mk_question 1 [20132])]\<rparr>, None) \<and>
   batch_composition (ensure_fields (load_progress None)) [format_question (mk_question 1 [20132])] =
     \<lparr>comp_wrong = 0, comp_unanswered = 1, comp_reviewed = 0\<rparr>"
proof -
  have c: "three_dir (corpus_file (ustr ''c1'') 1) = Some three_questions"
    by (simp add: three_dir_def)
  have ids: "wrong_ids_of (ensure_fields (load_progress None)) = []"
    "answered_ids_of (ensure_fields (load_progress None)) = []"
    by (simp_all add: wrong_ids_of_def answered_ids_of_def load_progress_def default_progress_def
        ensure_fields_def get_or_def)
  have 1: "cmd_top500 prefix_sample keep_order three_dir None (ustr ''c1'') 1 1 () =
     (Inr \<lparr>t_total_selected = 3,
           t_composition = \<lparr>comp_wrong = 0, comp_unanswered = 3, comp_reviewed = 0\<rparr>,
           t_count = 1,
           t_questions = [format_question (mk_question 1 [20132])]\<rparr>, None)"
    using resolve_c1 c
    by (simp add: cmd_top500_def load_questions_def Let_def three_selected ids wrong_pool_def
        py_slice_to_def py_index_def) (simp add: three_questions_def)
  have 2: "batch_composition (ensure_fields (load_progress None)) [format_question (mk_question 1 [20132])] =
     \<lparr>comp_wrong = 0, comp_unanswered = 1, comp_reviewed = 0\<rparr>"
    by (simp add: batch_composition_def ids)
  show ?thesis using 1 2 by blast
qed

theorem top500_composition_of_curated_set_witness:
  "\<exists>r. cmd_top500 prefix_sample keep_order three_dir None (ustr ''c1'') 1 1 () = (Inr r, None) \<and>
        t_total_selected r = 3 \<and>
        comp_wrong (t_composition r) + comp_unanswered (t_composition r) + comp_reviewed (t_composition r) = 3 \<and>
        t_count r = 1"
proof -
  have c: "three_dir (corpus_file (ustr ''c1'') 1) = Some three_questions"
    by (simp add: three_dir_def)
  have w: "wrong_pool (ensure_fields (load_progress None)) three_questions = []"
    by (simp add: wrong_pool_def wrong_ids_of_def load_progress_def default_progress_def
        ensure_fields_def get_or_def)
  have n: "length three_questions = 3" by (simp add: three_questions_def)
  from top500_composition_of_curated_set[where dd = three_dir and pf = None and cnt = 1 and g = "()",
      OF valid_prefix_sample valid_keep_order resolve_c1 c refl refl]
  show ?thesis by (auto simp: three_selected w n)
qed

lemma top500_six_hundred_aux:
  assumes vs: "valid_sample smp" and vh: "valid_shuffle shf"
    and n: "length qs = 600"
    and w: "length (wrong_pool p qs) = 50"
    and k: "card (category ` set (unanswered_pool p qs)) = 10"
    and s: "selected = fst (top500_selected smp shf p qs g)"
    and t: "from_unanswered =
              (\<Sum>c \<in> category ` set (unanswered_pool p qs).
                 min 45 (length (filter (\<lambda>q. category q = c) (unanswered_pool p qs))))"
  shows "length selected =
           50 + from_unanswered + min (450 - from_unanswered) (length (correct_pool p qs)) \<and>
         length selected \<le> 500 \<and>
         mset (wrong_pool p qs) \<subseteq># mset selected \<and>
         (\<forall>c \<in> category ` set (unanswered_pool p qs).
            \<exists>q \<in> set selected. category q = c \<and> q \<in> set (unanswered_pool p qs))"
proof -
  let ?W = "wrong_pool p qs" and ?U = "unanswered_pool p qs" and ?C = "correct_pool p qs"
  let ?B = "by_category ?U"
  obtain pu pc where
    m: "mset selected = mset (take 500 (?W @ pu @ pc))" and
    lu: "length pu =
      (if length ?W < 500 \<and> ?U \<noteq> []
       then sum_list (map (\<lambda>(c, l). min (nat (max 1 ((500 - int (length ?W)) div int (length ?B)))) (length l)) ?B)
       else 0)" and
    lc: "length pc = nat (min (500 - int (length ?W + length pu)) (int (length ?C)))" and
    cov: "length ?W < 500 \<longrightarrow> (\<forall>x \<in> set ?B. \<exists>q \<in> set pu. q \<in> set (snd x))"
    unfolding s using top500_selected_shape[OF vs vh, of p qs g] by blast
  have lB: "length ?B = 10" using k by (simp add: by_category_length)
  have Une: "?U \<noteq> []" using k by auto
  have "length pu = sum_list (map (\<lambda>(c, l). min 45 (length l)) ?B)"
    using lu w lB Une by simp
  then have pu: "length pu = from_unanswered"
    using by_category_sum[of "min 45" ?U] by (simp add: t)
  have "from_unanswered \<le> of_nat (card (category ` set ?U)) * 45"
    unfolding t by (rule sum_bounded_above) simp
  then have b: "from_unanswered \<le> 450" using k by simp
  have pc: "length pc = min (450 - from_unanswered) (length ?C)"
  proof -
    have "500 - int (length ?W + length pu) = int (450 - from_unanswered)"
      using w pu b by simp
    then have "length pc = nat (min (int (450 - from_unanswered)) (int (length ?C)))"
      using lc by simp
    also have "\<dots> = min (450 - from_unanswered) (length ?C)"
      by (simp flip: of_nat_min)
    finally show ?thesis .
  qed
  have len: "length (?W @ pu @ pc) = 50 + from_unanswered + min (450 - from_unanswered) (length ?C)"
    using w pu pc by simp
  have mb: "min (450 - from_unanswered) (length ?C) \<le> 450 - from_unanswered" by simp
  with b len have "length (?W @ pu @ pc) \<le> 500" by linarith
  then have tk: "take 500 (?W @ pu @ pc) = ?W @ pu @ pc" by (rule take_all)
  have m': "mset selected = mset (?W @ pu @ pc)" using m unfolding tk .
  have 1: "length selected =
           50 + from_unanswered + min (450 - from_unanswered) (length ?C)"
    using len m' by (metis size_mset)
  have 2: "length selected \<le> 500" using 1 b mb by linarith
  have 3: "mset ?W \<subseteq># mset selected" by (simp add: m')
  have 4: "\<exists>q \<in> set selected. category q = c \<and> q \<in> set ?U" if c: "c \<in> category ` set ?U" for c
  proof -
    from c have "map_of ?B c = Some (filter (\<lambda>q. category q = c) ?U)"
      by (simp add: by_category_map_of)
    then have "(c, filter (\<lambda>q. category q = c) ?U) \<in> set ?B" by (rule map_of_SomeD)
    with cov w obtain q where q: "q \<in> set pu" "q \<in> set (filter (\<lambda>q. category q = c) ?U)"
      by fastforce
    from q(1) have "q \<in># mset selected" by (simp add: m')
    then have "q \<in> set selected" by simp
    with q(2) show ?thesis by auto
  qed
  show ?thesis using 1 2 3 4 by blast
qed

text \<open>
  Claim C2, amended. On a corpus of 600 questions of which 50 are currently wrong and
  whose never-attempted questions fall into 10 categories, the quota per category is 45.
  The curated set holds the 50 wrong questions, \<open>min(45, n)\<close> questions of each category
  with \<open>n\<close> never-attempted questions, and questions answered correctly up to the 450
  places the categories leave free. Its size is that sum, at most 500; it contains every
  wrong question; and every category with a never-attempted question contributes one.
\<close>

theorem top500_six_hundred:
  assumes "valid_sample smp" and "valid_shuffle shf"
    and "length qs = 600"
    and "length (wrong_pool p qs) = 50"
    and "card (category ` set (unanswered_pool p qs)) = 10"
    and "selected = fst (top500_selected smp shf p qs g)"
    and "from_unanswered =
              (\<Sum>c \<in> category ` set (unanswered_pool p qs).
                 min 45 (length (filter (\<lambda>q. category q = c) (unanswered_pool p qs))))"
  shows "length selected =
           50 + from_unanswered + min (450 - from_unanswered) (length (correct_pool p qs)) \<and>
         length selected \<le> 500 \<and>
         mset (wrong_pool p qs) \<subseteq># mset selected \<and>
         (\<forall>c \<in> category ` set (unanswered_pool p qs).
            \<exists>q \<in> set selected. category q = c \<and> q \<in> set (unanswered_pool p qs))"
  using assms by (rule top500_six_hundred_aux)

lemma update_absent: "c \<notin> fst ` set al \<Longrightarrow> AList.update c v al = al @ [(c, v)]"
  by (induction al) auto

lemma update_last: "c \<notin> fst ` set al \<Longrightarrow> AList.update c v (al @ [(c, w)]) = al @ [(c, v)]"
  by (induction al) auto

lemma map_of_last: "c \<notin> fst ` set al \<Longrightarrow> map_of (al @ [(c, w)]) c = Some w"
  by (induction al) auto

lemma map_of_absent: "c \<notin> fst ` set al \<Longrightarrow> map_of al c = None"
  by (simp add: map_of_eq_None_iff)

lemma group_block:
  assumes "b \<noteq> []" and "\<forall>q \<in> set b. category q = c" and "c \<notin> fst ` set acc"
  shows "foldl (\<lambda>by_cat q. AList.update (category q) (get_or (map_of by_cat (category q)) [] @ [q]) by_cat) acc b =
           acc @ [(c, b)]"
  using assms(1,2)
proof (induction b rule: rev_induct)
  case Nil
  then show ?case by simp
next
  case (snoc q b)
  then have cq: "category q = c" by simp
  show ?case
  proof (cases "b = []")
    case True
    then show ?thesis
      using assms(3) by (simp add: cq map_of_absent update_absent get_or_def)
  next
    case False
    with snoc have "foldl (\<lambda>by_cat q. AList.update (category q) (get_or (map_of by_cat (category q)) [] @ [q]) by_cat) acc b =
           acc @ [(c, b)]" by simp
    then show ?thesis
      using assms(3) by (simp add: cq map_of_last update_last get_or_def del: map_of_append)
  qed
qed

lemma block_length: "length (block k lo hi) = nat (hi - lo + 1)"
  by (simp add: block_def)

lemma block_member: "q \<in> set (block k lo hi) \<Longrightarrow> category q = [k] \<and> lo \<le> qid q \<and> qid q \<le> hi"
  by (auto simp: block_def mk_question_def)

lemma block_nonempty: "lo \<le> hi \<Longrightarrow> block k lo hi \<noteq> []"
  by (simp add: block_def)

lemma group_block600:
  assumes "lo \<le> hi" and "[k] \<notin> fst ` set acc"
  shows "foldl (\<lambda>by_cat q. AList.update (category q) (get_or (map_of by_cat (category q)) [] @ [q]) by_cat) acc (block k lo hi) =
           acc @ [([k], block k lo hi)]"
  using block_nonempty[OF assms(1)] _ assms(2) by (rule group_block) (simp add: block_member)

lemma ids600:
  "wrong_ids_of progress600 = [1..50]" "answered_ids_of progress600 = [1..50]"
  by (simp_all add: wrong_ids_of_def answered_ids_of_def progress600_def get_or_def)

lemma filter_block_inside:
  "a \<le> lo \<Longrightarrow> hi \<le> b \<Longrightarrow> filter (\<lambda>q. a \<le> qid q \<and> qid q \<le> b) (block k lo hi) = block k lo hi"
  by (rule filter_True) (auto dest: block_member)

lemma filter_block_outside:
  "b < lo \<Longrightarrow> filter (\<lambda>q. a \<le> qid q \<and> qid q \<le> b) (block k lo hi) = []"
  by (rule filter_False) (auto dest: block_member)

lemma filter_block_not_inside:
  "a \<le> lo \<Longrightarrow> hi \<le> b \<Longrightarrow> filter (\<lambda>q. a \<le> qid q \<longrightarrow> \<not> qid q \<le> b) (block k lo hi) = []"
  by (rule filter_False) (auto dest: block_member)

lemma filter_block_not_outside:
  "b < lo \<Longrightarrow> filter (\<lambda>q. a \<le> qid q \<longrightarrow> \<not> qid q \<le> b) (block k lo hi) = block k lo hi"
  by (rule filter_True) (auto dest: block_member)

lemma wrong600: "wrong_pool progress600 corpus600 = block 0 1 50"
  unfolding wrong_pool_def ids600 corpus600_def filter_append
  by (simp add: filter_block_inside filter_block_outside filter_block_not_inside filter_block_not_outside)

lemma unanswered600:
  "unanswered_pool progress600 corpus600 =
     block 1 51 555 @ block 2 556 560 @ block 3 561 565 @ block 4 566 570 @
     block 5 571 575 @ block 6 576 580 @ block 7 581 585 @ block 8 586 590 @ block 9 591 595 @
     block 10 596 600"
  unfolding unanswered_pool_def ids600 corpus600_def filter_append
  by (simp add: filter_block_inside filter_block_outside filter_block_not_inside filter_block_not_outside)

lemma correct600: "correct_pool progress600 corpus600 = []"
  unfolding correct_pool_def ids600 corpus600_def filter_append
  by simp

lemma by_category600:
  "by_category (unanswered_pool progress600 corpus600) =
     [([1], block 1 51 555), ([2], block 2 556 560), ([3], block 3 561 565), ([4], block 4 566 570),
      ([5], block 5 571 575), ([6], block 6 576 580), ([7], block 7 581 585), ([8], block 8 586 590),
      ([9], block 9 591 595), ([10], block 10 596 600)]"
  unfolding unanswered600 by_category_def foldl_append
  by (simp add: group_block600)

lemma corpus600_length: "length corpus600 = 600"
  by (simp add: corpus600_def block_length)

lemma wrong600_length: "length (wrong_pool progress600 corpus600) = 50"
  by (simp add: wrong600 block_length)

lemma categories600: "card (category ` set (unanswered_pool progress600 corpus600)) = 10"
  by (simp add: by_category600 flip: by_category_length)

lemma from_unanswered600:
  "(\<Sum>c \<in> category ` set (unanswered_pool progress600 corpus600).
      min 45 (length (filter (\<lambda>q. category q = c) (unanswered_pool progress600 corpus600)))) = 90"
  by (simp add: by_category600 block_length flip: by_category_sum[of "min 45"])

lemma selected600_length:
  "length (fst (top500_selected prefix_sample keep_order progress600 corpus600 ())) = 140"
  using top500_six_hundred_aux[OF valid_prefix_sample valid_keep_order corpus600_length
      wrong600_length categories600 refl refl, of "()"]
  by (simp add: from_unanswered600 correct600)

text \<open>
  Claim C2 as stated fails on the size: with 505 never-attempted questions in one
  category and 5 in each of nine others, and no question answered correctly, the curated
  set holds 50 + 45 + 9 * 5 = 140 questions, not 500.
\<close>

theorem top500_six_hundred_counterexample:
  "length corpus600 = 600 \<and>
   length (wrong_pool progress600 corpus600) = 50 \<and>
   length (by_category (unanswered_pool progress600 corpus600)) = 10 \<and>
   length (fst (top500_selected prefix_sample keep_order progress600 corpus600 ())) = 140 \<and>
   map_sum id t_total_selected
     (fst (cmd_top500 prefix_sample keep_order dir600 (Some progress600) (ustr ''c1'') 1 5 ())) = Inr 140"
proof -
  have c: "dir600 (corpus_file (ustr ''c1'') 1) = Some corpus600"
    by (simp add: dir600_def)
  have p: "ensure_fields (load_progress (Some progress600)) = progress600"
    by (simp add: ensure_fields_def load_progress_def progress600_def default_progress_def)
  have "map_sum id t_total_selected
     (fst (cmd_top500 prefix_sample keep_order dir600 (Some progress600) (ustr ''c1'') 1 5 ())) = Inr 140"
    using resolve_c1 c by (simp add: cmd_top500_def load_questions_def Let_def p selected600_length)
  then show ?thesis
    by (simp add: corpus600_length wrong600_length selected600_length by_category600)
qed

theorem top500_six_hundred_witness:
  "length (fst (top500_selected prefix_sample keep_order progress600 corpus600 ())) = 140 \<and>
   mset (wrong_pool progress600 corpus600) \<subseteq>#
     mset (fst (top500_selected prefix_sample keep_order progress600 corpus600 ()))"
  using top500_six_hundred[OF valid_prefix_sample valid_keep_order corpus600_length
      wrong600_length categories600 refl refl, of "()"]
  by (simp add: from_unanswered600 correct600)

end
